theory Spec2Isabelle
  imports Complex_Main "HOL-Library.Sublist" "HOL-Library.Multiset" "HOL-Library.Log_Nat"
begin

section \<open>JavaScript values used by the dashboard\<close>

text \<open>
  The component \<open>src/frontend/src/App.jsx\<close> receives its data from a JSON response. A
  JavaScript number is modelled by its exact value: \<open>Fin r\<close> for a finite number \<open>r\<close>
  (every double is a rational; the two zeros are identified, which \<open><\<close>, \<open>>\<close>, \<open>>=\<close> and
  \<open>===\<close> do as well), \<open>PosInf\<close>, \<open>NegInf\<close> and \<open>NaN\<close>. Arithmetic and the reading of
  a numeric string round to the nearest double (\<open>dbl\<close> below). The score field of a
  record is a JSON primitive or is missing.
\<close>

datatype jsnum = NaN | NegInf | Fin rat | PosInf

datatype jsval = JUndefined | JNull | JBool bool | JNum jsnum | JStr string

text \<open>The comparison \<open>a < b\<close> of two numbers: false as soon as one of them is \<open>NaN\<close>.\<close>

fun num_lt :: "jsnum \<Rightarrow> jsnum \<Rightarrow> bool" where
  "num_lt NaN b = False"
| "num_lt a NaN = False"
| "num_lt NegInf NegInf = False"
| "num_lt NegInf b = True"
| "num_lt (Fin a) NegInf = False"
| "num_lt (Fin a) (Fin b) = (a < b)"
| "num_lt (Fin a) PosInf = True"
| "num_lt PosInf b = False"

subsection \<open>Double arithmetic\<close>

text \<open>
  The result of an arithmetic operation is the exact result rounded to the nearest
  double, ties to the even significand (IEEE 754 binary64): 53 bits of significand, the
  exponent of a normal number between -1022 and 1023, and below that the subnormal
  numbers, multiples of \<open>2 ^ - 1074\<close>. \<open>ilog2 x\<close> is the exponent \<open>e\<close> with
  \<open>2 ^ e \<le> x < 2 ^ (e + 1)\<close>; \<open>dbl x\<close> is the rounded value while it is finite, and
  \<open>to_double\<close> adds the overflow to an infinity.
\<close>

definition pow2 :: "int \<Rightarrow> rat" where
  "pow2 e = (if 0 \<le> e then 2 ^ nat e else 1 / 2 ^ nat (- e))"

definition ilog2 :: "rat \<Rightarrow> int" where
  "ilog2 x =
     (let d = bitlen (fst (quotient_of x)) - bitlen (snd (quotient_of x))
      in if pow2 d \<le> x then d else d - 1)"

definition round_half_even :: "rat \<Rightarrow> int" where
  "round_half_even q =
     (let f = \<lfloor>q\<rfloor>; d = q - of_int f
      in if d < 1 / 2 then f else if 1 / 2 < d then f + 1
         else if even f then f else f + 1)"

definition dbl :: "rat \<Rightarrow> rat" where
  "dbl x =
     (if x = 0 then 0
      else
        let a = \<bar>x\<bar>;
            u = pow2 (max (ilog2 a) (- 1022) - 52);
            r = of_int (round_half_even (a / u)) * u
        in if x < 0 then - r else r)"

definition to_double :: "rat \<Rightarrow> jsnum" where
  "to_double x =
     (let r = dbl x
      in if pow2 1024 \<le> r then PosInf else if r \<le> - pow2 1024 then NegInf else Fin r)"

subsection \<open>Strings\<close>

text \<open>Strings are sequences of code units (here below 256), compared unit by unit.\<close>

fun str_lt :: "string \<Rightarrow> string \<Rightarrow> bool" where
  "str_lt [] [] = False"
| "str_lt [] (b # bs) = True"
| "str_lt (a # as) [] = False"
| "str_lt (a # as) (b # bs) =
     ((of_char a :: nat) < of_char b \<or> (a = b \<and> str_lt as bs))"

text \<open>
  \<open>String.prototype.toLowerCase\<close> on the code units below 256: the letters A-Z and the
  Latin-1 capitals (192 to 222, without the multiplication sign 215) move up by 32.
\<close>

definition lower_char :: "char \<Rightarrow> char" where
  "lower_char c =
     (let n = (of_char c :: nat)
      in if (65 \<le> n \<and> n \<le> 90) \<or> (192 \<le> n \<and> n \<le> 222 \<and> n \<noteq> 215)
         then char_of (n + 32) else c)"

definition toLowerCase :: "string \<Rightarrow> string" where
  "toLowerCase s = map lower_char s"

text \<open>\<open>String.prototype.includes\<close>: the argument occurs at some position of the string.\<close>

fun starts_with :: "string \<Rightarrow> string \<Rightarrow> bool" where
  "starts_with s [] = True"
| "starts_with [] (q # qs) = False"
| "starts_with (c # cs) (q # qs) = (c = q \<and> starts_with cs qs)"

fun str_includes :: "string \<Rightarrow> string \<Rightarrow> bool" where
  "str_includes [] q = (q = [])"
| "str_includes (c # cs) q = (starts_with (c # cs) q \<or> str_includes cs q)"

subsection \<open>Numeric coercion\<close>

text \<open>
  \<open>Number(v)\<close> on a primitive. A string is trimmed and read as a decimal literal (sign,
  digits, fraction, exponent, \<open>Infinity\<close>) or as a binary, octal or hexadecimal integer,
  and the value of the literal is rounded to a double; the empty string is 0 and
  anything else is \<open>NaN\<close>.
\<close>

definition is_ws :: "char \<Rightarrow> bool" where
  "is_ws c = ((of_char c :: nat) \<in> {9, 10, 11, 12, 13, 32, 160})"

definition trim :: "string \<Rightarrow> string" where
  "trim s = rev (dropWhile is_ws (rev (dropWhile is_ws s)))"

definition digit_of :: "char \<Rightarrow> nat option" where
  "digit_of c =
     (let n = (of_char c :: nat)
      in if 48 \<le> n \<and> n \<le> 57 then Some (n - 48)
         else if 97 \<le> n \<and> n \<le> 102 then Some (n - 87)
         else if 65 \<le> n \<and> n \<le> 70 then Some (n - 55)
         else None)"

definition is_digit :: "nat \<Rightarrow> char \<Rightarrow> bool" where
  "is_digit radix c = (case digit_of c of None \<Rightarrow> False | Some d \<Rightarrow> d < radix)"

definition digits_val :: "nat \<Rightarrow> string \<Rightarrow> int" where
  "digits_val radix ds =
     foldl (\<lambda>acc c. acc * int radix + (case digit_of c of None \<Rightarrow> 0 | Some d \<Rightarrow> int d))
       0 ds"

definition parse_radix :: "nat \<Rightarrow> string \<Rightarrow> jsnum" where
  "parse_radix radix ds =
     (if ds \<noteq> [] \<and> list_all (is_digit radix) ds
      then to_double (of_int (digits_val radix ds))
      else NaN)"

definition parse_digits :: "string \<Rightarrow> int option" where
  "parse_digits ds =
     (if ds \<noteq> [] \<and> list_all (is_digit 10) ds then Some (digits_val 10 ds) else None)"

text \<open>The optional exponent part, which must reach the end of the literal.\<close>

definition parse_exponent :: "string \<Rightarrow> int option" where
  "parse_exponent s =
     (case s of
        [] \<Rightarrow> Some 0
      | c # r \<Rightarrow>
          if c = CHR ''e'' \<or> c = CHR ''E'' then
            (case r of
               [] \<Rightarrow> None
             | d # r' \<Rightarrow>
                 if d = CHR ''+'' then parse_digits r'
                 else if d = CHR ''-'' then map_option uminus (parse_digits r')
                 else parse_digits r)
          else None)"

definition pow10 :: "int \<Rightarrow> rat" where
  "pow10 e = (if 0 \<le> e then 10 ^ nat e else 1 / 10 ^ nat (- e))"

definition parse_unsigned_decimal :: "string \<Rightarrow> jsnum" where
  "parse_unsigned_decimal s =
     (if s = ''Infinity'' then PosInf
      else
        let ip = takeWhile (is_digit 10) s;
            r1 = dropWhile (is_digit 10) s;
            fp = (case r1 of [] \<Rightarrow> [] | c # t \<Rightarrow>
                    if c = CHR ''.'' then takeWhile (is_digit 10) t else []);
            r2 = (case r1 of [] \<Rightarrow> [] | c # t \<Rightarrow>
                    if c = CHR ''.'' then dropWhile (is_digit 10) t else r1)
        in if ip = [] \<and> fp = [] then NaN
           else (case parse_exponent r2 of
                   None \<Rightarrow> NaN
                 | Some e \<Rightarrow>
                     to_double
                       (of_int (digits_val 10 (ip @ fp)) * pow10 (e - int (length fp)))))"

fun num_neg :: "jsnum \<Rightarrow> jsnum" where
  "num_neg NaN = NaN"
| "num_neg NegInf = PosInf"
| "num_neg (Fin r) = Fin (- r)"
| "num_neg PosInf = NegInf"

definition StringToNumber :: "string \<Rightarrow> jsnum" where
  "StringToNumber s =
     (case trim s of
        [] \<Rightarrow> Fin 0
      | c # r \<Rightarrow>
          if c = CHR ''+'' then parse_unsigned_decimal r
          else if c = CHR ''-'' then num_neg (parse_unsigned_decimal r)
          else if c = CHR ''0'' \<and> r \<noteq> [] \<and> hd r \<in> {CHR ''x'', CHR ''X''}
            then parse_radix 16 (tl r)
          else if c = CHR ''0'' \<and> r \<noteq> [] \<and> hd r \<in> {CHR ''o'', CHR ''O''}
            then parse_radix 8 (tl r)
          else if c = CHR ''0'' \<and> r \<noteq> [] \<and> hd r \<in> {CHR ''b'', CHR ''B''}
            then parse_radix 2 (tl r)
          else parse_unsigned_decimal (c # r))"

fun Number :: "jsval \<Rightarrow> jsnum" where
  "Number JUndefined = NaN"
| "Number JNull = Fin 0"
| "Number (JBool b) = Fin (if b then 1 else 0)"
| "Number (JNum n) = n"
| "Number (JStr s) = StringToNumber s"

subsection \<open>Relational operators and strict equality on primitives\<close>

text \<open>
  \<open>a < b\<close>: two strings are compared as strings, anything else after \<open>Number\<close>.
  \<open>a > b\<close> is \<open>b < a\<close>, and \<open>a >= b\<close> is false when the comparison is undefined
  (a \<open>NaN\<close> operand) and the negation of \<open>a < b\<close> otherwise.
\<close>

fun js_lt :: "jsval \<Rightarrow> jsval \<Rightarrow> bool" where
  "js_lt (JStr a) (JStr b) = str_lt a b"
| "js_lt a b = num_lt (Number a) (Number b)"

definition js_gt :: "jsval \<Rightarrow> jsval \<Rightarrow> bool" where
  "js_gt a b = js_lt b a"

fun js_ge :: "jsval \<Rightarrow> jsval \<Rightarrow> bool" where
  "js_ge (JStr a) (JStr b) = (\<not> str_lt a b)"
| "js_ge a b = (Number a \<noteq> NaN \<and> Number b \<noteq> NaN \<and> \<not> num_lt (Number a) (Number b))"

text \<open>\<open>a === b\<close>: same type and same value; \<open>NaN\<close> is not equal to itself.\<close>

fun strict_eq :: "jsval \<Rightarrow> jsval \<Rightarrow> bool" where
  "strict_eq JUndefined JUndefined = True"
| "strict_eq JNull JNull = True"
| "strict_eq (JBool a) (JBool b) = (a = b)"
| "strict_eq (JNum a) (JNum b) = (a \<noteq> NaN \<and> a = b)"
| "strict_eq (JStr a) (JStr b) = (a = b)"
| "strict_eq a b = False"

section \<open>The students table\<close>

record student =
  usn :: string
  name :: string
  sgpa :: jsval

record ranked_student = student +
  rank :: int

datatype sortBy = SortUsn | SortName | SortSgpa

datatype sortOrder = Asc | Desc

subsection \<open>Search filter\<close>

definition filtered :: "student list \<Rightarrow> string \<Rightarrow> student list" where
  "filtered students searchTerm =
     filter (\<lambda>s. str_includes (toLowerCase (usn s)) (toLowerCase searchTerm) \<or>
                 str_includes (toLowerCase (name s)) (toLowerCase searchTerm)) students"

subsection \<open>Comparator and sort\<close>

text \<open>
  The comparator passed to \<open>sort\<close>. For the key \<open>sgpa\<close> both values go through
  \<open>Number\<close>; for \<open>usn\<close> and \<open>name\<close> through \<open>String\<close> (the identity on a string) and
  \<open>toLowerCase\<close>.
\<close>

definition sort_val :: "sortBy \<Rightarrow> student \<Rightarrow> jsval" where
  "sort_val sb a =
     (case sb of
        SortSgpa \<Rightarrow> JNum (Number (sgpa a))
      | SortUsn \<Rightarrow> JStr (toLowerCase (usn a))
      | SortName \<Rightarrow> JStr (toLowerCase (name a)))"

definition compare :: "sortBy \<Rightarrow> sortOrder \<Rightarrow> student \<Rightarrow> student \<Rightarrow> int" where
  "compare sb so a b =
     (let aVal = sort_val sb a; bVal = sort_val sb b
      in if so = Asc
         then (if js_gt aVal bVal then 1 else if js_lt aVal bVal then - 1 else 0)
         else (if js_lt aVal bVal then 1 else if js_gt aVal bVal then - 1 else 0))"

text \<open>
  \<open>Array.prototype.sort\<close> belongs to the runtime. ECMAScript requires a stable sort and
  fixes the result whenever the comparator is consistent on the elements: the stable
  rearrangement in comparator order, computed here by a stable insertion sort in which an
  element moves behind the elements it compares strictly greater than. Where the
  comparator is not consistent (a score that coerces to \<open>NaN\<close>) the order is the
  engine's own; see \<open>v8_sort\<close> below.
\<close>

fun insert_by :: "('a \<Rightarrow> 'a \<Rightarrow> int) \<Rightarrow> 'a \<Rightarrow> 'a list \<Rightarrow> 'a list" where
  "insert_by cmp x [] = [x]"
| "insert_by cmp x (y # ys) = (if 0 < cmp x y then y # insert_by cmp x ys else x # y # ys)"

fun array_sort :: "('a \<Rightarrow> 'a \<Rightarrow> int) \<Rightarrow> 'a list \<Rightarrow> 'a list" where
  "array_sort cmp [] = []"
| "array_sort cmp (x # xs) = insert_by cmp x (array_sort cmp xs)"

definition sorted_students :: "sortBy \<Rightarrow> sortOrder \<Rightarrow> student list \<Rightarrow> student list" where
  "sorted_students sb so flt = array_sort (compare sb so) flt"

text \<open>
  What the V8 engine does with an array of fewer than 64 elements, which its sort treats
  as a single run. \<open>CountAndMakeRun\<close> takes the longest leading run, either
  non-descending or strictly descending, and reverses a descending one.
  \<open>BinaryInsertionSort\<close> then inserts each remaining element into the sorted part, at
  the position a binary search finds: the search goes left when the comparator puts the
  new element strictly before the middle one, and right otherwise.
\<close>

fun run_tail :: "('a \<Rightarrow> 'a \<Rightarrow> int) \<Rightarrow> bool \<Rightarrow> 'a \<Rightarrow> 'a list \<Rightarrow> nat" where
  "run_tail cmp desc prev [] = 0"
| "run_tail cmp desc prev (x # xs) =
     (let order = cmp x prev
      in if (if desc then 0 \<le> order else order < 0) then 0
         else Suc (run_tail cmp desc x xs))"

definition CountAndMakeRun :: "('a \<Rightarrow> 'a \<Rightarrow> int) \<Rightarrow> 'a list \<Rightarrow> 'a list \<times> 'a list" where
  "CountAndMakeRun cmp xs =
     (case xs of
        [] \<Rightarrow> ([], [])
      | [x] \<Rightarrow> ([x], [])
      | x # y # zs \<Rightarrow>
          let desc = (cmp y x < 0);
              n = 2 + run_tail cmp desc y zs
          in (if desc then rev (take n xs) else take n xs, drop n xs))"

function bsearch :: "('a \<Rightarrow> 'a \<Rightarrow> int) \<Rightarrow> 'a \<Rightarrow> 'a list \<Rightarrow> nat \<Rightarrow> nat \<Rightarrow> nat" where
  "bsearch cmp pivot xs left right =
     (if left < right
      then let mid = left + (right - left) div 2
           in if cmp pivot (xs ! mid) < 0 then bsearch cmp pivot xs left mid
              else bsearch cmp pivot xs (mid + 1) right
      else left)"
  by pat_completeness auto
termination
  by (relation "measure (\<lambda>(cmp, pivot, xs, left, right). right - left)") auto

definition BinaryInsertionSort :: "('a \<Rightarrow> 'a \<Rightarrow> int) \<Rightarrow> 'a list \<Rightarrow> 'a list \<Rightarrow> 'a list" where
  "BinaryInsertionSort cmp run rest =
     foldl (\<lambda>pre pivot.
              let k = bsearch cmp pivot pre 0 (length pre)
              in take k pre @ pivot # drop k pre)
           run rest"

definition v8_sort :: "('a \<Rightarrow> 'a \<Rightarrow> int) \<Rightarrow> 'a list \<Rightarrow> 'a list" where
  "v8_sort cmp xs =
     (if length xs < 2 then xs
      else case CountAndMakeRun cmp xs of (run, rest) \<Rightarrow> BinaryInsertionSort cmp run rest)"

definition sorted_v8 :: "sortBy \<Rightarrow> sortOrder \<Rightarrow> student list \<Rightarrow> student list" where
  "sorted_v8 sb so flt = v8_sort (compare sb so) flt"

text \<open>
  A comparator is consistent on a set of elements when it is antisymmetric there and its
  ``not after'' is transitive; ECMAScript fixes the result of \<open>sort\<close> for such a
  comparator only.
\<close>

definition consistent_on :: "('a \<Rightarrow> 'a \<Rightarrow> int) \<Rightarrow> 'a set \<Rightarrow> bool" where
  "consistent_on cmp S \<longleftrightarrow>
     (\<forall>a\<in>S. \<forall>b\<in>S. (cmp a b < 0) = (0 < cmp b a)) \<and>
     (\<forall>a\<in>S. \<forall>b\<in>S. \<forall>c\<in>S. cmp a b \<le> 0 \<longrightarrow> cmp b c \<le> 0 \<longrightarrow> cmp a c \<le> 0)"

text \<open>
  Insertion in front of the first element the new one comes strictly before: where the
  binary search lands on a list in comparator order.
\<close>

definition insert_last :: "('a \<Rightarrow> 'a \<Rightarrow> int) \<Rightarrow> 'a \<Rightarrow> 'a list \<Rightarrow> 'a list" where
  "insert_last cmp x l =
     takeWhile (\<lambda>e. \<not> cmp x e < 0) l @ x # dropWhile (\<lambda>e. \<not> cmp x e < 0) l"

subsection \<open>Competition ranking\<close>

text \<open>\<open>Array.prototype.findIndex\<close>: the first index whose element passes, or -1.\<close>

fun findIndex_from :: "('a \<Rightarrow> bool) \<Rightarrow> 'a list \<Rightarrow> int \<Rightarrow> int" where
  "findIndex_from p [] k = - 1"
| "findIndex_from p (x # xs) k = (if p x then k else findIndex_from p xs (k + 1))"

definition findIndex :: "('a \<Rightarrow> bool) \<Rightarrow> 'a list \<Rightarrow> int" where
  "findIndex p xs = findIndex_from p xs 0"

definition rank_of :: "student list \<Rightarrow> student \<Rightarrow> nat \<Rightarrow> int" where
  "rank_of srt st index =
     (if 0 < index \<and> strict_eq (sgpa (srt ! (index - 1))) (sgpa st)
      then findIndex (\<lambda>s. strict_eq (sgpa s) (sgpa st)) srt + 1
      else int index + 1)"

definition rankedStudents :: "student list \<Rightarrow> ranked_student list" where
  "rankedStudents srt =
     map (\<lambda>(index, st).
            \<lparr>usn = usn st, name = name st, sgpa = sgpa st, rank = rank_of srt st index\<rparr>)
         (enumerate 0 srt)"

subsection \<open>Tier classifier\<close>

definition getSGPAColor :: "jsval \<Rightarrow> string" where
  "getSGPAColor v =
     (if js_ge v (JNum (Fin 9)) then ''sgpa-excellent''
      else if js_ge v (JNum (Fin 8)) then ''sgpa-great''
      else if js_ge v (JNum (Fin 7)) then ''sgpa-good''
      else if js_ge v (JNum (Fin 6)) then ''sgpa-average''
      else ''sgpa-low'')"

subsection \<open>The table component\<close>

datatype students_view = NoStudentsFound | StudentsTable "ranked_student list"

definition AllStudentsTable ::
  "student list \<Rightarrow> sortBy \<Rightarrow> sortOrder \<Rightarrow> string \<Rightarrow> students_view" where
  "AllStudentsTable students sb so searchTerm =
     (if students = [] then NoStudentsFound
      else StudentsTable (rankedStudents (sorted_students sb so (filtered students searchTerm))))"

section \<open>The distribution chart\<close>

text \<open>
  \<open>distribution\<close> is the bucket object of the response, given by its entries in the order
  \<open>Object.entries\<close> lists them, or \<open>None\<close> when the field is missing. Counts are integers.
  The width is the number in front of the percent sign, a double.
\<close>

record dist_row =
  row_label :: string
  row_width :: rat
  row_count :: int

datatype dist_view = NoDistributionData | DistChart "dist_row list"

datatype maxnum = NegInfinity | IntVal int

text \<open>\<open>Math.max\<close> of the spread values; without arguments it is minus infinity.\<close>

fun Math_max :: "int list \<Rightarrow> maxnum" where
  "Math_max [] = NegInfinity"
| "Math_max (v # vs) = IntVal (fold max vs v)"

definition Object_entries :: "(string \<times> int) list option \<Rightarrow> (string \<times> int) list" where
  "Object_entries distribution = (case distribution of None \<Rightarrow> [] | Some es \<Rightarrow> es)"

text \<open>
  \<open>(count / maxCount) * 100 || 5\<close>: the quotient is rounded to a double, and so is its
  product with 100. The counts are integers that a double holds exactly (below
  \<open>2 ^ 53\<close>), so every value stays finite; \<open>maxCount\<close> is never 0 here. A finite count
  divided by minus infinity is a zero, which is falsy as well.
\<close>

definition bar_width :: "int \<Rightarrow> maxnum \<Rightarrow> rat" where
  "bar_width cnt maxCount =
     (let q = (case maxCount of
                 IntVal m \<Rightarrow> dbl (dbl (of_int cnt / of_int m) * 100)
               | NegInfinity \<Rightarrow> 0)
      in if q = 0 then 5 else q)"

definition DistributionChart :: "(string \<times> int) list option \<Rightarrow> dist_view" where
  "DistributionChart distribution =
     (let entries = Object_entries distribution
      in if entries = [] then NoDistributionData
         else
           let maxCount = (case Math_max (map snd entries) of
                             IntVal m \<Rightarrow> if m = 0 then IntVal 1 else IntVal m
                           | NegInfinity \<Rightarrow> NegInfinity)
           in DistChart (map (\<lambda>(lbl, cnt).
                \<lparr>row_label = lbl, row_width = bar_width cnt maxCount, row_count = cnt\<rparr>)
                entries))"

section \<open>Notions of the specification\<close>

text \<open>
  The specification's match: the query is, ignoring case, a substring of the text; that
  is, the text has a segment that equals the query once both are lower-cased.
\<close>

definition ci_substring :: "string \<Rightarrow> string \<Rightarrow> bool" where
  "ci_substring q s = (\<exists>pre w post. s = pre @ w @ post \<and> toLowerCase w = toLowerCase q)"

text \<open>
  The specification names the tiers \<open>excellent\<close>, \<open>great\<close>, \<open>good\<close>, \<open>average\<close> and
  \<open>low\<close>; the classifier returns the style class of a tier, the tier's name behind the
  prefix \<open>sgpa-\<close>.
\<close>

definition tier_class :: "string \<Rightarrow> string" where
  "tier_class t = ''sgpa-'' @ t"

text \<open>A numeric score, as the data model has it: a number that is not \<open>NaN\<close>.\<close>

fun is_number :: "jsval \<Rightarrow> bool" where
  "is_number (JNum n) = (n \<noteq> NaN)"
| "is_number v = False"

section \<open>Properties of the tier classifier\<close>

lemma js_ge_coerce: "js_ge v (JNum n) = js_ge (JNum (Number v)) (JNum n)"
  by (cases v) simp_all

text \<open>
  C8: a finite score \<open>r\<close> is classified excellent exactly when \<open>9 \<le> r\<close>, great exactly
  when \<open>8 \<le> r < 9\<close>, good exactly when \<open>7 \<le> r < 8\<close>, average exactly when \<open>6 \<le> r < 7\<close>
  and low exactly when \<open>r < 6\<close>, so every lower boundary is inclusive; any other score is
  classified as its numeric coercion is, one that does not coerce being low; and 9.0 is
  excellent, 8.999 is great, 6.0 is average and 5.999 is low.
\<close>

theorem getSGPAColor_tiers:
  "(getSGPAColor (JNum (Fin r)) = tier_class ''excellent'' \<longleftrightarrow> 9 \<le> r) \<and>
   (getSGPAColor (JNum (Fin r)) = tier_class ''great'' \<longleftrightarrow> 8 \<le> r \<and> r < 9) \<and>
   (getSGPAColor (JNum (Fin r)) = tier_class ''good'' \<longleftrightarrow> 7 \<le> r \<and> r < 8) \<and>
   (getSGPAColor (JNum (Fin r)) = tier_class ''average'' \<longleftrightarrow> 6 \<le> r \<and> r < 7) \<and>
   (getSGPAColor (JNum (Fin r)) = tier_class ''low'' \<longleftrightarrow> r < 6) \<and>
   getSGPAColor v = getSGPAColor (JNum (Number v)) \<and>
   getSGPAColor (JNum NaN) = tier_class ''low'' \<and>
   getSGPAColor (JNum PosInf) = tier_class ''excellent'' \<and>
   getSGPAColor (JNum NegInf) = tier_class ''low'' \<and>
   getSGPAColor (JNum (Fin 9)) = tier_class ''excellent'' \<and>
   getSGPAColor (JNum (Fin (8999 / 1000))) = tier_class ''great'' \<and>
   getSGPAColor (JNum (Fin 6)) = tier_class ''average'' \<and>
   getSGPAColor (JNum (Fin (5999 / 1000))) = tier_class ''low''"
proof -
  have cls: "getSGPAColor (JNum (Fin q)) =
      (if 9 \<le> q then ''sgpa-excellent'' else if 8 \<le> q then ''sgpa-great''
       else if 7 \<le> q then ''sgpa-good'' else if 6 \<le> q then ''sgpa-average''
       else ''sgpa-low'')" for q
    by (simp add: getSGPAColor_def not_less)
  have co: "getSGPAColor v = getSGPAColor (JNum (Number v))"
    unfolding getSGPAColor_def by (simp only: js_ge_coerce [of v] Number.simps)
  have ex: "getSGPAColor (JNum NaN) = ''sgpa-low''"
      "getSGPAColor (JNum PosInf) = ''sgpa-excellent''"
      "getSGPAColor (JNum NegInf) = ''sgpa-low''"
    by (simp_all add: getSGPAColor_def)
  show ?thesis
    unfolding cls tier_class_def by (simp add: co [symmetric] ex)
qed

section \<open>Properties of the rounding to a double\<close>

subsection \<open>Powers of two\<close>

lemma pow2_powi: "pow2 e = 2 powi e"
proof (cases "0 \<le> e")
  case True
  then show ?thesis by (simp only: pow2_def power_int_def if_True)
next
  case False
  then have "pow2 e = 1 / 2 ^ nat (- e)" by (simp only: pow2_def if_False)
  also have "\<dots> = inverse 2 ^ nat (- e)" by (simp add: power_one_over inverse_eq_divide)
  also have "\<dots> = 2 powi e" using False by (simp only: power_int_def if_False)
  finally show ?thesis .
qed

lemma pow2_pos: "0 < pow2 e"
  by (simp add: pow2_powi zero_less_power_int)

lemma pow2_add: "pow2 (a + b) = pow2 a * pow2 b"
  by (simp add: pow2_powi power_int_add)

lemma pow2_mono: "a \<le> b \<Longrightarrow> pow2 a \<le> pow2 b"
  by (simp add: pow2_powi power_int_increasing)

lemma pow2_strict_mono: "a < b \<Longrightarrow> pow2 a < pow2 b"
  by (simp add: pow2_powi power_int_strict_increasing)

lemma pow2_less_cancel: "pow2 a < pow2 b \<Longrightarrow> a < b"
  using pow2_mono [of b a] by (cases "a < b") auto

lemma pow2_of_nat: "pow2 (int n) = 2 ^ n"
  by (simp add: pow2_def)

lemma pow2_diff: "pow2 (a - b) = pow2 a / pow2 b"
proof -
  have "pow2 a = pow2 (a - b) * pow2 b" using pow2_add [of "a - b" b] by simp
  then show ?thesis using pow2_pos [of b] by simp
qed

subsection \<open>The binary exponent\<close>

lemma of_int_bitlen_bounds:
  assumes "0 < p"
  shows "pow2 (bitlen p - 1) \<le> of_int p" and "of_int p < pow2 (bitlen p)"
proof -
  have b: "2 ^ nat (bitlen p - 1) \<le> p" "p < 2 ^ nat (bitlen p)"
    using bitlen_bounds [OF assms] by simp_all
  have ge: "1 \<le> bitlen p" using assms bitlen_eq_zero_iff [of p] bitlen_nonneg [of p]
    by (cases "bitlen p = 0") auto
  have "pow2 (bitlen p - 1) = of_int (2 ^ nat (bitlen p - 1))"
    using ge by (simp add: pow2_def)
  also have "\<dots> \<le> of_int p" using b(1) by (simp only: of_int_le_iff)
  finally show "pow2 (bitlen p - 1) \<le> of_int p" .
  have "(of_int p :: rat) < of_int (2 ^ nat (bitlen p))"
    using b(2) by (simp only: of_int_less_iff)
  also have "\<dots> = pow2 (bitlen p)" using ge by (simp add: pow2_def)
  finally show "of_int p < pow2 (bitlen p)" .
qed

lemma ilog2_bounds:
  assumes "0 < x"
  shows "pow2 (ilog2 x) \<le> x" and "x < pow2 (ilog2 x + 1)"
proof -
  define p where "p = fst (quotient_of x)"
  define q where "q = snd (quotient_of x)"
  define d where "d = bitlen p - bitlen q"
  have qpos: "0 < q" unfolding q_def by (rule quotient_of_denom_pos')
  have x: "x = of_int p / of_int q"
    using quotient_of_div [of x p q] by (simp add: p_def q_def)
  have ppos: "0 < p"
    using assms qpos unfolding x by (simp add: zero_less_divide_iff)
  note bp = of_int_bitlen_bounds [OF ppos] and bq = of_int_bitlen_bounds [OF qpos]
  have q0: "(0::rat) < of_int q" using qpos by simp
  have up: "x < pow2 (d + 1)"
  proof -
    have "x < pow2 (bitlen p) / of_int q"
      unfolding x using bp(2) q0 by (simp add: divide_strict_right_mono)
    also have "\<dots> \<le> pow2 (bitlen p) / pow2 (bitlen q - 1)"
      using bq(1) pow2_pos [of "bitlen q - 1"] pow2_pos [of "bitlen p"]
      by (simp add: frac_le)
    also have "\<dots> = pow2 (d + 1)"
      using pow2_diff [of "bitlen p" "bitlen q - 1"] by (simp add: d_def algebra_simps)
    finally show ?thesis .
  qed
  have lo: "pow2 (d - 1) \<le> x"
  proof -
    have "pow2 (d - 1) = pow2 (bitlen p - 1) / pow2 (bitlen q)"
      using pow2_diff [of "bitlen p - 1" "bitlen q"] by (simp add: d_def algebra_simps)
    also have "\<dots> \<le> of_int p / pow2 (bitlen q)"
      using bp(1) pow2_pos [of "bitlen q"] by (simp add: divide_right_mono)
    also have "\<dots> \<le> of_int p / of_int q"
      using bq(2) q0 ppos by (simp add: frac_le)
    finally show ?thesis unfolding x .
  qed
  have il: "ilog2 x = (if pow2 d \<le> x then d else d - 1)"
    by (simp add: ilog2_def Let_def p_def q_def d_def)
  show "pow2 (ilog2 x) \<le> x" unfolding il using lo by simp
  show "x < pow2 (ilog2 x + 1)" unfolding il using up by simp
qed

lemma ilog2_mono:
  assumes "0 < x" "x \<le> y"
  shows "ilog2 x \<le> ilog2 y"
proof -
  have "pow2 (ilog2 x) \<le> x" using ilog2_bounds(1) [OF assms(1)] .
  also have "x \<le> y" by fact
  also have "y < pow2 (ilog2 y + 1)" using ilog2_bounds(2) [of y] assms by simp
  finally have "ilog2 x < ilog2 y + 1" by (rule pow2_less_cancel)
  then show ?thesis by simp
qed

subsection \<open>Rounding to an integer\<close>

lemma round_half_even_bounds:
  "\<lfloor>q\<rfloor> \<le> round_half_even q" "round_half_even q \<le> \<lfloor>q\<rfloor> + 1"
  by (simp_all add: round_half_even_def Let_def)

lemma round_half_even_of_int: "round_half_even (of_int n) = n"
  by (simp add: round_half_even_def)

lemma round_half_even_mono:
  assumes "a \<le> b"
  shows "round_half_even a \<le> round_half_even b"
proof (cases "\<lfloor>a\<rfloor> = \<lfloor>b\<rfloor>")
  case True
  then have "a - of_int \<lfloor>a\<rfloor> \<le> b - of_int \<lfloor>b\<rfloor>" using assms by simp
  then show ?thesis using True by (auto simp: round_half_even_def Let_def)
next
  case False
  have "\<lfloor>a\<rfloor> \<le> \<lfloor>b\<rfloor>" using assms by (rule floor_mono)
  with False have "\<lfloor>a\<rfloor> + 1 \<le> \<lfloor>b\<rfloor>" by simp
  with round_half_even_bounds(2) [of a] round_half_even_bounds(1) [of b]
  show ?thesis by linarith
qed

subsection \<open>Rounding to a double\<close>

lemma dbl_pos_eq:
  assumes "0 < x"
  shows "dbl x = of_int (round_half_even (x / pow2 (max (ilog2 x) (- 1022) - 52))) *
           pow2 (max (ilog2 x) (- 1022) - 52)"
  using assms by (simp add: dbl_def Let_def)

lemma dbl_upper:
  assumes "0 < x"
  shows "dbl x \<le> pow2 (max (ilog2 x) (- 1022) + 1)"
proof -
  let ?k = "max (ilog2 x) (- 1022)"
  let ?u = "pow2 (?k - 52)"
  have u: "0 < ?u" by (rule pow2_pos)
  have "x < pow2 (ilog2 x + 1)" by (rule ilog2_bounds(2) [OF assms])
  also have "\<dots> \<le> pow2 (?k + 1)" by (rule pow2_mono) simp
  finally have "x / ?u \<le> pow2 (?k + 1) / ?u" using u by (simp add: divide_right_mono)
  also have "pow2 (?k + 1) / ?u = pow2 53"
    using pow2_diff [of "?k + 1" "?k - 52"] by (simp add: algebra_simps)
  also have "pow2 53 = of_int (2 ^ 53)" by (simp add: pow2_def)
  finally have "round_half_even (x / ?u) \<le> round_half_even (of_int (2 ^ 53))"
    by (rule round_half_even_mono)
  then have "round_half_even (x / ?u) \<le> 2 ^ 53" by (simp only: round_half_even_of_int)
  then have "(of_int (round_half_even (x / ?u)) :: rat) \<le> of_int (2 ^ 53)"
    by (simp only: of_int_le_iff)
  then have "of_int (round_half_even (x / ?u)) * ?u \<le> of_int (2 ^ 53) * ?u"
    using u by (simp add: mult_right_mono)
  also have "of_int (2 ^ 53) * ?u = pow2 53 * ?u" by (simp add: pow2_def)
  also have "\<dots> = pow2 (?k + 1)" using pow2_add [of 53 "?k - 52"] by (simp add: algebra_simps)
  finally show ?thesis unfolding dbl_pos_eq [OF assms] .
qed

lemma dbl_lower:
  assumes "0 < x" "- 1022 \<le> ilog2 x"
  shows "pow2 (ilog2 x) \<le> dbl x"
proof -
  let ?k = "ilog2 x"
  let ?u = "pow2 (?k - 52)"
  have k: "max (ilog2 x) (- 1022) = ?k" using assms(2) by simp
  have u: "0 < ?u" by (rule pow2_pos)
  have "pow2 ?k / ?u \<le> x / ?u"
    using ilog2_bounds(1) [OF assms(1)] u by (simp add: divide_right_mono)
  moreover have "pow2 ?k / ?u = pow2 52"
    using pow2_diff [of ?k "?k - 52"] by simp
  moreover have "pow2 52 = of_int (2 ^ 52)" by (simp add: pow2_def)
  ultimately have "round_half_even (of_int (2 ^ 52)) \<le> round_half_even (x / ?u)"
    using round_half_even_mono [of "of_int (2 ^ 52)" "x / ?u"] by simp
  then have "2 ^ 52 \<le> round_half_even (x / ?u)" by (simp only: round_half_even_of_int)
  then have "(of_int (2 ^ 52) :: rat) \<le> of_int (round_half_even (x / ?u))"
    by (simp only: of_int_le_iff)
  then have "of_int (2 ^ 52) * ?u \<le> of_int (round_half_even (x / ?u)) * ?u"
    using u by (simp add: mult_right_mono)
  moreover have "of_int (2 ^ 52) * ?u = pow2 ?k"
    using pow2_add [of 52 "?k - 52"] by (simp add: pow2_def)
  ultimately show ?thesis unfolding dbl_pos_eq [OF assms(1)] k by simp
qed

lemma dbl_mono_pos:
  assumes "0 < x" "x \<le> y"
  shows "dbl x \<le> dbl y"
proof -
  have y: "0 < y" using assms by simp
  let ?kx = "max (ilog2 x) (- 1022)" and ?ky = "max (ilog2 y) (- 1022)"
  have kk: "?kx \<le> ?ky" using ilog2_mono [OF assms] by simp
  show ?thesis
  proof (cases "?kx = ?ky")
    case True
    let ?u = "pow2 (?ky - 52)"
    have u: "0 < ?u" by (rule pow2_pos)
    have "x / ?u \<le> y / ?u" using assms(2) u by (simp add: divide_right_mono)
    then have "round_half_even (x / ?u) \<le> round_half_even (y / ?u)"
      by (rule round_half_even_mono)
    then have "(of_int (round_half_even (x / ?u)) :: rat) \<le> of_int (round_half_even (y / ?u))"
      by (simp only: of_int_le_iff)
    then have "of_int (round_half_even (x / ?u)) * ?u \<le> of_int (round_half_even (y / ?u)) * ?u"
      using u by (simp add: mult_right_mono)
    then show ?thesis unfolding dbl_pos_eq [OF assms(1)] dbl_pos_eq [OF y] True .
  next
    case False
    with kk have lt: "?kx < ?ky" by linarith
    then have ky: "- 1022 \<le> ilog2 y" "?ky = ilog2 y" by linarith+
    have "dbl x \<le> pow2 (?kx + 1)" by (rule dbl_upper [OF assms(1)])
    also have "\<dots> \<le> pow2 (ilog2 y)" using lt ky(2) by (intro pow2_mono) linarith
    also have "\<dots> \<le> dbl y" by (rule dbl_lower [OF y ky(1)])
    finally show ?thesis .
  qed
qed

lemma dbl_values: "dbl 1 = 1" "dbl 100 = 100" "dbl (1 / 2 ^ 53) = 1 / 2 ^ 53"
  by code_simp+

section \<open>Properties of the distribution chart\<close>

text \<open>
  C9: with no bucket (the field missing, or an object without entries) the component
  returns the "No distribution data." state; the maximum and the widths are not computed,
  so nothing is divided.
\<close>

theorem DistributionChart_empty:
  "DistributionChart None = NoDistributionData \<and>
   DistributionChart (Some []) = NoDistributionData"
  by (simp add: DistributionChart_def Object_entries_def)

lemma Math_max_Max:
  assumes "vs \<noteq> []"
  shows "Math_max vs = IntVal (Max (set vs))"
proof (cases vs)
  case Nil
  with assms show ?thesis by simp
next
  case (Cons a list)
  then show ?thesis using Max.set_eq_fold [of a list] by simp
qed

lemma dbl_quotient_bounds:
  assumes "0 < c" "c \<le> m" "m < 2 ^ 53"
  shows "0 < dbl (dbl (of_int c / of_int m) * 100)"
    and "dbl (dbl (of_int c / of_int m) * 100) \<le> 100"
proof -
  define t :: rat where "t = 1 / 2 ^ 53"
  have t_pos: "0 < t" by (simp add: t_def)
  have t_dbl: "dbl t = t" unfolding t_def by (rule dbl_values)
  let ?x = "of_int c / of_int m :: rat"
  have m: "(0::rat) < of_int m" using assms by simp
  have "m \<le> 2 ^ 53" using assms(3) by simp
  then have "(of_int m :: rat) \<le> of_int (2 ^ 53)" by (simp only: of_int_le_iff)
  then have m53: "(of_int m :: rat) \<le> 2 ^ 53" by simp
  have c1: "(1::rat) \<le> of_int c" using assms(1) by simp
  have "t \<le> (1::rat) / of_int m" unfolding t_def using m m53 by (intro frac_le) simp_all
  also have "\<dots> \<le> ?x" using c1 m by (intro divide_right_mono) simp_all
  finally have x_lo: "t \<le> ?x" .
  have "(of_int c :: rat) \<le> of_int m" using assms(2) by simp
  then have x_hi: "?x \<le> 1" using m by (simp add: divide_le_eq_1)
  have x_pos: "0 < ?x" using t_pos x_lo by linarith
  have d_lo: "t \<le> dbl ?x" using dbl_mono_pos [OF t_pos x_lo] by (simp only: t_dbl)
  have d_hi: "dbl ?x \<le> 1" using dbl_mono_pos [OF x_pos x_hi] by (simp only: dbl_values)
  let ?y = "dbl ?x * 100"
  have y_lo: "t \<le> ?y" using d_lo t_pos by linarith
  have y_hi: "?y \<le> 100" using d_hi by linarith
  have y_pos: "0 < ?y" using t_pos y_lo by linarith
  have "t \<le> dbl ?y" using dbl_mono_pos [OF t_pos y_lo] by (simp only: t_dbl)
  then show "0 < dbl ?y" using t_pos by linarith
  show "dbl ?y \<le> 100" using dbl_mono_pos [OF y_pos y_hi] by (simp only: dbl_values)
qed

lemma bar_width_nonneg:
  assumes "0 \<le> c" "c \<le> m" "m < 2 ^ 53"
  shows "bar_width c (if m = 0 then IntVal 1 else IntVal m) =
           (if c = 0 then 5 else dbl (dbl (of_int c / of_int m) * 100))"
    and "0 < bar_width c (if m = 0 then IntVal 1 else IntVal m)"
    and "bar_width c (if m = 0 then IntVal 1 else IntVal m) \<le> 100"
proof -
  let ?w = "bar_width c (if m = 0 then IntVal 1 else IntVal m)"
  have d0: "dbl 0 = 0" by (simp add: dbl_def)
  have pos: "0 < dbl (dbl (of_int c / of_int m) * 100) \<and>
      dbl (dbl (of_int c / of_int m) * 100) \<le> 100" if "c \<noteq> 0"
  proof -
    have c: "0 < c" using assms(1) that by simp
    show ?thesis using dbl_quotient_bounds [OF c assms(2,3)] by blast
  qed
  show eq: "?w = (if c = 0 then 5 else dbl (dbl (of_int c / of_int m) * 100))"
  proof (cases "c = 0")
    case True
    then show ?thesis by (simp add: bar_width_def d0)
  next
    case False
    then have "m \<noteq> 0" using assms by auto
    with False pos show ?thesis by (simp add: bar_width_def Let_def)
  qed
  show "0 < ?w" unfolding eq using pos by (cases "c = 0") simp_all
  show "?w \<le> 100" unfolding eq using pos by (cases "c = 0") simp_all
qed

lemma dbl_examples:
  "dbl 0 = 0"
  "dbl (dbl 1 * 100) = 100"
  "dbl (dbl (1 / 2) * 100) = 50"
  "dbl (dbl (1 / 100) * 100) = 1"
  "dbl (dbl (7 / 100) * 100) = 7 + 1 / 2 ^ 50"
  by code_simp+

text \<open>
  C7, as the specification words it: every rendered width lies within 5 and 100 percent.
  The floor of 5 replaces a width of zero only, so a bucket with 1 of at most 100 is drawn
  at 1 percent.
\<close>

theorem DistributionChart_floor_counterexample:
  "DistributionChart (Some [(''A'', 1), (''B'', 100)]) =
     DistChart [\<lparr>row_label = ''A'', row_width = 1, row_count = 1\<rparr>,
                \<lparr>row_label = ''B'', row_width = 100, row_count = 100\<rparr>] \<and>
   \<not> (5 \<le> (1::rat))"
  by (simp add: DistributionChart_def Object_entries_def bar_width_def dbl_examples)

text \<open>
  C7, amended: for a non-empty bucket list with non-negative counts (below \<open>2 ^ 53\<close>, as
  a double holds them), the chart has one row per bucket, in order, with the bucket's
  label and count; the width of a row is \<open>(count / maxCount) * 100\<close> for the maximum
  count \<open>maxCount\<close>, computed in double arithmetic (the quotient is rounded, and the
  product is), except that a count of 0 gets the width 5; every width is above 0 and at
  most 100 (not at least 5); the counts A:0, B:4, C:2 give the widths 5, 100 and 50; and
  7 of 100 is drawn at 7.000000000000001, the double next above 7.
\<close>

theorem DistributionChart_widths:
  assumes "es \<noteq> []" and "\<forall>e\<in>set es. 0 \<le> snd e \<and> snd e < 2 ^ 53"
  shows "(\<exists>rows. DistributionChart (Some es) = DistChart rows \<and>
           map row_label rows = map fst es \<and> map row_count rows = map snd es \<and>
           (\<forall>i<length es.
              row_width (rows ! i) =
                (if snd (es ! i) = 0 then 5
                 else dbl (dbl (of_int (snd (es ! i)) / of_int (Max (set (map snd es)))) * 100)) \<and>
              0 < row_width (rows ! i) \<and> row_width (rows ! i) \<le> 100)) \<and>
         DistributionChart (Some [(''A'', 0), (''B'', 4), (''C'', 2)]) =
           DistChart [\<lparr>row_label = ''A'', row_width = 5, row_count = 0\<rparr>,
                      \<lparr>row_label = ''B'', row_width = 100, row_count = 4\<rparr>,
                      \<lparr>row_label = ''C'', row_width = 50, row_count = 2\<rparr>] \<and>
         DistributionChart (Some [(''A'', 7), (''B'', 100)]) =
           DistChart [\<lparr>row_label = ''A'', row_width = 7 + 1 / 2 ^ 50, row_count = 7\<rparr>,
                      \<lparr>row_label = ''B'', row_width = 100, row_count = 100\<rparr>]"
proof (intro conjI)
  let ?m = "Max (set (map snd es))"
  let ?mc = "if ?m = 0 then IntVal 1 else IntVal ?m"
  let ?rows = "map (\<lambda>(lbl, cnt).
       \<lparr>row_label = lbl, row_width = bar_width cnt ?mc, row_count = cnt\<rparr>) es"
  have mm: "Math_max (map snd es) = IntVal ?m"
    using assms(1) by (simp add: Math_max_Max)
  have chart: "DistributionChart (Some es) = DistChart ?rows"
    using assms(1) by (simp add: DistributionChart_def Object_entries_def mm)
  have lbl: "map row_label ?rows = map fst es"
    by (simp add: case_prod_beta)
  have cnt: "map row_count ?rows = map snd es"
    by (simp add: case_prod_beta)
  have "?m \<in> set (map snd es)" using assms(1) by (intro Max_in) simp_all
  then have m53: "?m < 2 ^ 53" using assms(2) by auto
  have w: "row_width (?rows ! i) =
             (if snd (es ! i) = 0 then 5
              else dbl (dbl (of_int (snd (es ! i)) / of_int ?m) * 100)) \<and>
           0 < row_width (?rows ! i) \<and> row_width (?rows ! i) \<le> 100"
    if i: "i < length es" for i
  proof -
    have mem: "es ! i \<in> set es" using i by simp
    have c0: "0 \<le> snd (es ! i)" using assms(2) mem by blast
    have "snd (es ! i) \<in> set (map snd es)" using mem by simp
    then have cm: "snd (es ! i) \<le> ?m" by (rule Max_ge [OF finite_set])
    have rw: "row_width (?rows ! i) = bar_width (snd (es ! i)) ?mc"
      using i by (simp add: case_prod_beta)
    show ?thesis
      unfolding rw using bar_width_nonneg [OF c0 cm m53] by simp
  qed
  show "\<exists>rows. DistributionChart (Some es) = DistChart rows \<and>
           map row_label rows = map fst es \<and> map row_count rows = map snd es \<and>
           (\<forall>i<length es.
              row_width (rows ! i) =
                (if snd (es ! i) = 0 then 5
                 else dbl (dbl (of_int (snd (es ! i)) / of_int (Max (set (map snd es)))) * 100)) \<and>
              0 < row_width (rows ! i) \<and> row_width (rows ! i) \<le> 100)"
    using chart lbl cnt w by blast
next
  show "DistributionChart (Some [(''A'', 0), (''B'', 4), (''C'', 2)]) =
           DistChart [\<lparr>row_label = ''A'', row_width = 5, row_count = 0\<rparr>,
                      \<lparr>row_label = ''B'', row_width = 100, row_count = 4\<rparr>,
                      \<lparr>row_label = ''C'', row_width = 50, row_count = 2\<rparr>]"
    by (simp add: DistributionChart_def Object_entries_def bar_width_def dbl_examples)
next
  show "DistributionChart (Some [(''A'', 7), (''B'', 100)]) =
           DistChart [\<lparr>row_label = ''A'', row_width = 7 + 1 / 2 ^ 50, row_count = 7\<rparr>,
                      \<lparr>row_label = ''B'', row_width = 100, row_count = 100\<rparr>]"
    by (simp add: DistributionChart_def Object_entries_def bar_width_def dbl_examples)
qed

theorem DistributionChart_widths_witness:
  "\<exists>rows. DistributionChart (Some [(''A'', 3), (''B'', 0), (''C'', 12)]) = DistChart rows \<and>
      (\<forall>i<length [(''A'', 3::int), (''B'', 0), (''C'', 12)].
          0 < row_width (rows ! i) \<and> row_width (rows ! i) \<le> 100)"
proof -
  let ?es = "[(''A'', 3::int), (''B'', 0), (''C'', 12)]"
  have h1: "?es \<noteq> []" by simp
  have h2: "\<forall>e\<in>set ?es. 0 \<le> snd e \<and> snd e < 2 ^ 53" by simp
  from DistributionChart_widths [OF h1 h2]
  obtain rows where a: "DistributionChart (Some ?es) = DistChart rows"
    and b: "\<forall>i<length ?es.
              row_width (rows ! i) =
                (if snd (?es ! i) = 0 then 5
                 else dbl (dbl (of_int (snd (?es ! i)) / of_int (Max (set (map snd ?es)))) * 100)) \<and>
              0 < row_width (rows ! i) \<and> row_width (rows ! i) \<le> 100"
    by blast
  from b have "\<forall>i<length ?es. 0 < row_width (rows ! i) \<and> row_width (rows ! i) \<le> 100"
    by blast
  with a show ?thesis by blast
qed

section \<open>Properties of the ranker\<close>

lemma length_rankedStudents: "length (rankedStudents srt) = length srt"
  by (simp add: rankedStudents_def)

lemma nth_rankedStudents:
  "i < length srt \<Longrightarrow>
     rankedStudents srt ! i =
       \<lparr>usn = usn (srt ! i), name = name (srt ! i), sgpa = sgpa (srt ! i),
        rank = rank_of srt (srt ! i) i\<rparr>"
  by (simp add: rankedStudents_def nth_enumerate_eq)

lemma findIndex_from_first:
  "i < length xs \<Longrightarrow> p (xs ! i) \<Longrightarrow>
     \<exists>j\<le>i. findIndex_from p xs k = k + int j \<and> p (xs ! j) \<and> (\<forall>m<j. \<not> p (xs ! m))"
proof (induction xs arbitrary: i k)
  case Nil
  then show ?case by simp
next
  case (Cons x xs)
  show ?case
  proof (cases "p x")
    case True
    then have "findIndex_from p (x # xs) k = k + int 0 \<and> p ((x # xs) ! 0) \<and>
        (\<forall>m<0. \<not> p ((x # xs) ! m))" by simp
    then show ?thesis by blast
  next
    case False
    with Cons.prems obtain i' where i': "i = Suc i'" by (cases i) auto
    with Cons.prems have "i' < length xs" "p (xs ! i')" by simp_all
    from Cons.IH [OF this, of "k + 1"] obtain j where j: "j \<le> i'"
      "findIndex_from p xs (k + 1) = k + 1 + int j" "p (xs ! j)" "\<forall>m<j. \<not> p (xs ! m)"
      by blast
    have "\<forall>m<Suc j. \<not> p ((x # xs) ! m)"
      using False j(4) by (auto simp: less_Suc_eq_0_disj)
    moreover have "findIndex_from p (x # xs) k = k + int (Suc j)"
      using False j(2) by simp
    moreover have "p ((x # xs) ! Suc j)" using j(3) by simp
    moreover have "Suc j \<le> i" using j(1) i' by simp
    ultimately show ?thesis by blast
  qed
qed

lemma findIndex_first:
  "i < length xs \<Longrightarrow> p (xs ! i) \<Longrightarrow>
     \<exists>j\<le>i. findIndex p xs = int j \<and> p (xs ! j) \<and> (\<forall>m<j. \<not> p (xs ! m))"
  using findIndex_from_first [of i xs p 0] by (simp add: findIndex_def)

lemma findIndex_none: "\<forall>x\<in>set xs. \<not> p x \<Longrightarrow> findIndex_from p xs k = - 1"
  by (induction xs arbitrary: k) auto

text \<open>
  C10: the ranked list is as long as the list handed to the ranker; the record at every
  position carries the usn, the name and the sgpa of the input record at that position;
  and dropping the added rank field gives the input list back, so nothing is reordered.
  The ranker builds new records and the input list is a value of its own, never changed.
\<close>

theorem rankedStudents_frame:
  "length (rankedStudents srt) = length srt \<and>
   (\<forall>i<length srt.
      usn (rankedStudents srt ! i) = usn (srt ! i) \<and>
      name (rankedStudents srt ! i) = name (srt ! i) \<and>
      sgpa (rankedStudents srt ! i) = sgpa (srt ! i)) \<and>
   map student.truncate (rankedStudents srt) = srt"
proof -
  have "map student.truncate (rankedStudents srt) = srt"
    by (rule nth_equalityI)
       (simp_all add: length_rankedStudents nth_rankedStudents student.truncate_def)
  then show ?thesis
    by (simp add: length_rankedStudents nth_rankedStudents)
qed

theorem rankedStudents_frame_witness:
  "length (rankedStudents
      [\<lparr>usn = ''X1'', name = ''Alice'', sgpa = JNum (Fin (19 / 2))\<rparr>,
       \<lparr>usn = ''X2'', name = ''Bob'', sgpa = JNum (Fin (19 / 2))\<rparr>]) = 2 \<and>
   usn (rankedStudents
      [\<lparr>usn = ''X1'', name = ''Alice'', sgpa = JNum (Fin (19 / 2))\<rparr>,
       \<lparr>usn = ''X2'', name = ''Bob'', sgpa = JNum (Fin (19 / 2))\<rparr>] ! 1) = ''X2''"
  using rankedStudents_frame
    [of "[\<lparr>usn = ''X1'', name = ''Alice'', sgpa = JNum (Fin (19 / 2))\<rparr>,
          \<lparr>usn = ''X2'', name = ''Bob'', sgpa = JNum (Fin (19 / 2))\<rparr>]"]
  by simp

lemma rank_rankedStudents:
  "i < length srt \<Longrightarrow> rank (rankedStudents srt ! i) = rank_of srt (srt ! i) i"
  by (simp add: nth_rankedStudents)

lemma map_rank_rankedStudents:
  "map rank (rankedStudents srt) = map (\<lambda>i. rank_of srt (srt ! i) i) [0..<length srt]"
  by (rule nth_equalityI) (simp_all add: length_rankedStudents rank_rankedStudents)

lemma rank_of_law:
  assumes "i < length srt"
  shows "if 0 < i \<and> strict_eq (sgpa (srt ! (i - 1))) (sgpa (srt ! i))
         then \<exists>j<i. rank_of srt (srt ! i) i = int j + 1 \<and>
                strict_eq (sgpa (srt ! j)) (sgpa (srt ! i)) \<and>
                (\<forall>m<j. \<not> strict_eq (sgpa (srt ! m)) (sgpa (srt ! i)))
         else rank_of srt (srt ! i) i = int i + 1"
proof (cases "0 < i \<and> strict_eq (sgpa (srt ! (i - 1))) (sgpa (srt ! i))")
  case True
  let ?p = "\<lambda>s. strict_eq (sgpa s) (sgpa (srt ! i))"
  have "i - 1 < length srt" "?p (srt ! (i - 1))" using True assms by simp_all
  from findIndex_first [of "i - 1" srt ?p, OF this]
  obtain j where j: "j \<le> i - 1" "findIndex ?p srt = int j" "?p (srt ! j)"
      "\<forall>m<j. \<not> ?p (srt ! m)" by blast
  have "j < i" using j(1) True by linarith
  moreover have "rank_of srt (srt ! i) i = int j + 1"
    using True j(2) by (simp add: rank_of_def)
  ultimately show ?thesis using True j(3,4) by auto
next
  case False
  then show ?thesis by (auto simp: rank_of_def)
qed

text \<open>
  C1: in the list handed to the ranker (sorted by score descending, or any other list),
  the record at index 0 gets rank 1; a record at an index \<open>i > 0\<close> whose score is
  strictly equal to the score at \<open>i - 1\<close> gets rank \<open>j + 1\<close> for the first index \<open>j\<close> whose
  score equals the score at \<open>i\<close>; any other record gets rank \<open>i + 1\<close>. The scores
  9.5, 9.5, 9.0, 8.0 get the ranks 1, 1, 3, 4; the scores 7.0, 7.0, 7.0 get 1, 1, 1; the
  single score 9.0 gets 1.
\<close>

theorem rankedStudents_rank_law:
  "(i < length srt \<longrightarrow>
      (if i = 0 then rank (rankedStudents srt ! i) = 1
       else if strict_eq (sgpa (srt ! (i - 1))) (sgpa (srt ! i))
       then \<exists>j<i. rank (rankedStudents srt ! i) = int j + 1 \<and>
              strict_eq (sgpa (srt ! j)) (sgpa (srt ! i)) \<and>
              (\<forall>m<j. \<not> strict_eq (sgpa (srt ! m)) (sgpa (srt ! i)))
       else rank (rankedStudents srt ! i) = int i + 1)) \<and>
   (map sgpa a = [JNum (Fin (19 / 2)), JNum (Fin (19 / 2)), JNum (Fin 9), JNum (Fin 8)] \<longrightarrow>
      map rank (rankedStudents a) = [1, 1, 3, 4]) \<and>
   (map sgpa b = [JNum (Fin 7), JNum (Fin 7), JNum (Fin 7)] \<longrightarrow>
      map rank (rankedStudents b) = [1, 1, 1]) \<and>
   (map sgpa c = [JNum (Fin 9)] \<longrightarrow> map rank (rankedStudents c) = [1])"
proof (intro conjI impI)
  assume i: "i < length srt"
  show "if i = 0 then rank (rankedStudents srt ! i) = 1
       else if strict_eq (sgpa (srt ! (i - 1))) (sgpa (srt ! i))
       then \<exists>j<i. rank (rankedStudents srt ! i) = int j + 1 \<and>
              strict_eq (sgpa (srt ! j)) (sgpa (srt ! i)) \<and>
              (\<forall>m<j. \<not> strict_eq (sgpa (srt ! m)) (sgpa (srt ! i)))
       else rank (rankedStudents srt ! i) = int i + 1"
  proof (cases "i = 0")
    case True
    then show ?thesis using i by (simp add: rank_rankedStudents rank_of_def)
  next
    case False
    then show ?thesis
      using rank_of_law [OF i] by (simp add: rank_rankedStudents [OF i] split: if_splits)
  qed
next
  assume "map sgpa a = [JNum (Fin (19 / 2)), JNum (Fin (19 / 2)), JNum (Fin 9), JNum (Fin 8)]"
  then obtain a1 a2 a3 a4 where "a = [a1, a2, a3, a4]"
      "sgpa a1 = JNum (Fin (19 / 2))" "sgpa a2 = JNum (Fin (19 / 2))"
      "sgpa a3 = JNum (Fin 9)" "sgpa a4 = JNum (Fin 8)"
    by (auto simp: map_eq_Cons_conv)
  then show "map rank (rankedStudents a) = [1, 1, 3, 4]"
    by (simp add: map_rank_rankedStudents rank_of_def findIndex_def upt_rec numeral_eq_Suc)
next
  assume "map sgpa b = [JNum (Fin 7), JNum (Fin 7), JNum (Fin 7)]"
  then obtain b1 b2 b3 where "b = [b1, b2, b3]"
      "sgpa b1 = JNum (Fin 7)" "sgpa b2 = JNum (Fin 7)" "sgpa b3 = JNum (Fin 7)"
    by (auto simp: map_eq_Cons_conv)
  then show "map rank (rankedStudents b) = [1, 1, 1]"
    by (simp add: map_rank_rankedStudents rank_of_def findIndex_def upt_rec numeral_eq_Suc)
next
  assume "map sgpa c = [JNum (Fin 9)]"
  then obtain c1 where "c = [c1]" "sgpa c1 = JNum (Fin 9)"
    by (auto simp: map_eq_Cons_conv)
  then show "map rank (rankedStudents c) = [1]"
    by (simp add: map_rank_rankedStudents rank_of_def findIndex_def)
qed


theorem rankedStudents_rank_law_witness:
  "1 < length [\<lparr>usn = ''X1'', name = ''A'', sgpa = JNum (Fin (19 / 2))\<rparr>,
               \<lparr>usn = ''X2'', name = ''B'', sgpa = JNum (Fin (19 / 2))\<rparr>,
               \<lparr>usn = ''X3'', name = ''C'', sgpa = JNum (Fin 9)\<rparr>,
               \<lparr>usn = ''X4'', name = ''D'', sgpa = JNum (Fin 8)\<rparr>] \<and>
   rank (rankedStudents
              [\<lparr>usn = ''X1'', name = ''A'', sgpa = JNum (Fin (19 / 2))\<rparr>,
               \<lparr>usn = ''X2'', name = ''B'', sgpa = JNum (Fin (19 / 2))\<rparr>,
               \<lparr>usn = ''X3'', name = ''C'', sgpa = JNum (Fin 9)\<rparr>,
               \<lparr>usn = ''X4'', name = ''D'', sgpa = JNum (Fin 8)\<rparr>] ! 1) = 1 \<and>
   map rank (rankedStudents
              [\<lparr>usn = ''X1'', name = ''A'', sgpa = JNum (Fin (19 / 2))\<rparr>,
               \<lparr>usn = ''X2'', name = ''B'', sgpa = JNum (Fin (19 / 2))\<rparr>,
               \<lparr>usn = ''X3'', name = ''C'', sgpa = JNum (Fin 9)\<rparr>,
               \<lparr>usn = ''X4'', name = ''D'', sgpa = JNum (Fin 8)\<rparr>]) = [1, 1, 3, 4] \<and>
   map rank (rankedStudents
              [\<lparr>usn = ''Y1'', name = ''A'', sgpa = JNum (Fin 7)\<rparr>,
               \<lparr>usn = ''Y2'', name = ''B'', sgpa = JNum (Fin 7)\<rparr>,
               \<lparr>usn = ''Y3'', name = ''C'', sgpa = JNum (Fin 7)\<rparr>]) = [1, 1, 1] \<and>
   map rank (rankedStudents [\<lparr>usn = ''Z1'', name = ''A'', sgpa = JNum (Fin 9)\<rparr>]) = [1]"
proof -
  let ?A = "[\<lparr>usn = ''X1'', name = ''A'', sgpa = JNum (Fin (19 / 2))\<rparr>,
               \<lparr>usn = ''X2'', name = ''B'', sgpa = JNum (Fin (19 / 2))\<rparr>,
               \<lparr>usn = ''X3'', name = ''C'', sgpa = JNum (Fin 9)\<rparr>,
               \<lparr>usn = ''X4'', name = ''D'', sgpa = JNum (Fin 8)\<rparr>]"
  let ?B = "[\<lparr>usn = ''Y1'', name = ''A'', sgpa = JNum (Fin 7)\<rparr>,
               \<lparr>usn = ''Y2'', name = ''B'', sgpa = JNum (Fin 7)\<rparr>,
               \<lparr>usn = ''Y3'', name = ''C'', sgpa = JNum (Fin 7)\<rparr>]"
  let ?C = "[\<lparr>usn = ''Z1'', name = ''A'', sgpa = JNum (Fin 9)\<rparr>]"
  note law = rankedStudents_rank_law [of 1 ?A ?A ?B ?C]
  have h: "1 < length ?A" by simp
  have ha: "map sgpa ?A = [JNum (Fin (19 / 2)), JNum (Fin (19 / 2)), JNum (Fin 9), JNum (Fin 8)]"
    by simp
  have hb: "map sgpa ?B = [JNum (Fin 7), JNum (Fin 7), JNum (Fin 7)]" by simp
  have hc: "map sgpa ?C = [JNum (Fin 9)]" by simp
  have tie: "strict_eq (sgpa (?A ! (1 - 1))) (sgpa (?A ! 1))" by simp
  from law h tie have "\<exists>j<1. rank (rankedStudents ?A ! 1) = int j + 1 \<and>
              strict_eq (sgpa (?A ! j)) (sgpa (?A ! 1)) \<and>
              (\<forall>m<j. \<not> strict_eq (sgpa (?A ! m)) (sgpa (?A ! 1)))"
    by (simp only: if_True if_False One_nat_def nat.simps)
  then have r1: "rank (rankedStudents ?A ! 1) = 1" by auto
  from law ha have ra: "map rank (rankedStudents ?A) = [1, 1, 3, 4]" by blast
  from law hb have rb: "map rank (rankedStudents ?B) = [1, 1, 1]" by blast
  from law hc have rc: "map rank (rankedStudents ?C) = [1]" by blast
  from h r1 ra rb rc show ?thesis by blast
qed

section \<open>Properties of the search filter\<close>

lemma starts_with_prefix: "starts_with s q \<longleftrightarrow> prefix q s"
  by (induction s q rule: starts_with.induct) auto

lemma str_includes_sublist: "str_includes s q \<longleftrightarrow> sublist q s"
proof (induction s)
  case Nil
  then show ?case by simp
next
  case (Cons c cs)
  then show ?case by (simp add: starts_with_prefix sublist_Cons_right)
qed

lemma sublist_toLowerCase:
  "sublist (toLowerCase q) (toLowerCase s) \<longleftrightarrow> ci_substring q s"
proof
  assume "sublist (toLowerCase q) (toLowerCase s)"
  then obtain ps ss where "map lower_char s = ps @ map lower_char q @ ss"
    by (auto simp: sublist_def toLowerCase_def)
  then obtain pre r where s: "s = pre @ r" and "map lower_char q @ ss = map lower_char r"
    unfolding map_eq_append_conv by blast
  then obtain w post where r: "r = w @ post" and w: "map lower_char q = map lower_char w"
    unfolding append_eq_map_conv by blast
  have "s = pre @ w @ post \<and> toLowerCase w = toLowerCase q"
    using s r w by (simp add: toLowerCase_def)
  then show "ci_substring q s"
    unfolding ci_substring_def by blast
next
  assume "ci_substring q s"
  then obtain pre w post where "s = pre @ w @ post" "toLowerCase w = toLowerCase q"
    by (auto simp: ci_substring_def)
  then have "toLowerCase s = toLowerCase pre @ toLowerCase q @ toLowerCase post"
    by (simp add: toLowerCase_def)
  then show "sublist (toLowerCase q) (toLowerCase s)"
    unfolding sublist_def by blast
qed

lemma filtered_match:
  "filtered R q = filter (\<lambda>s. ci_substring q (usn s) \<or> ci_substring q (name s)) R"
  by (simp add: filtered_def str_includes_sublist sublist_toLowerCase)

text \<open>
  C5: the filter output is a subsequence of the record list, in the same order; a record
  of the list is in the output exactly when the query is, ignoring case, a substring of
  its usn or of its name; and the empty query gives the whole list back.
\<close>

theorem filtered_spec:
  "subseq (filtered R q) R \<and>
   (\<forall>s\<in>set R. s \<in> set (filtered R q) \<longleftrightarrow>
        ci_substring q (usn s) \<or> ci_substring q (name s)) \<and>
   filtered R [] = R"
proof -
  have "ci_substring [] s" for s
    unfolding ci_substring_def by (intro exI [of _ "[]"] exI [of _ s]) simp
  then have "filtered R [] = R" by (simp add: filtered_match)
  then show ?thesis by (auto simp: filtered_match)
qed

theorem filtered_spec_witness:
  "ci_substring ''aL'' ''X1'' \<or> ci_substring ''aL'' ''Alice''"
proof -
  let ?r1 = "\<lparr>usn = ''X1'', name = ''Alice'', sgpa = JNum (Fin (19 / 2))\<rparr>"
  let ?r2 = "\<lparr>usn = ''X2'', name = ''Bob'', sgpa = JNum (Fin 7)\<rparr>"
  have lc: "toLowerCase ''aL'' = ''al''" "toLowerCase ''X1'' = ''x1''"
      "toLowerCase ''X2'' = ''x2''" "toLowerCase ''Alice'' = ''alice''"
      "toLowerCase ''Bob'' = ''bob''"
    by code_simp+
  have f: "filtered [?r1, ?r2] ''aL'' = [?r1]"
    by (simp add: filtered_def lc)
  have m: "?r1 \<in> set [?r1, ?r2]" by simp
  from filtered_spec [of "[?r1, ?r2]" "''aL''"] m
  have "?r1 \<in> set (filtered [?r1, ?r2] ''aL'') \<longleftrightarrow>
        ci_substring ''aL'' (usn ?r1) \<or> ci_substring ''aL'' (name ?r1)"
    by blast
  then show ?thesis unfolding f by simp
qed

section \<open>Properties of the comparator and the sort\<close>

subsection \<open>The orders behind the comparator\<close>

lemma num_lt_asym: "num_lt a b \<Longrightarrow> \<not> num_lt b a"
  by (cases a; cases b) simp_all

lemma num_lt_negtrans:
  "a \<noteq> NaN \<Longrightarrow> b \<noteq> NaN \<Longrightarrow> c \<noteq> NaN \<Longrightarrow>
     \<not> num_lt b a \<Longrightarrow> \<not> num_lt c b \<Longrightarrow> \<not> num_lt c a"
  by (cases a; cases b; cases c) simp_all

lemma num_lt_antisym:
  "a \<noteq> NaN \<Longrightarrow> b \<noteq> NaN \<Longrightarrow> \<not> num_lt a b \<Longrightarrow> \<not> num_lt b a \<Longrightarrow> a = b"
  by (cases a; cases b) simp_all

lemma num_lt_NaN [simp]: "\<not> num_lt a NaN" "\<not> num_lt NaN a"
  by (cases a, simp_all)+

lemma str_lt_irrefl: "\<not> str_lt a a"
  by (induction a) simp_all

lemma str_lt_trans: "str_lt a b \<Longrightarrow> str_lt b c \<Longrightarrow> str_lt a c"
proof (induction a b arbitrary: c rule: str_lt.induct)
  case 1
  then show ?case by simp
next
  case (2 b bs)
  then show ?case by (cases c) simp_all
next
  case (3 a as)
  then show ?case by simp
next
  case (4 a as b bs)
  then obtain d ds where c: "c = d # ds" by (cases c) auto
  from 4 show ?case unfolding c by auto
qed

lemma str_lt_total: "str_lt a b \<or> a = b \<or> str_lt b a"
proof (induction a b rule: str_lt.induct)
  case (4 a as b bs)
  have "(of_char a :: nat) < of_char b \<or> (of_char b :: nat) < of_char a \<or> a = b"
    using of_char_eq_iff [of a b, where ?'a = nat] by linarith
  with 4 show ?case by auto
qed simp_all

lemma str_lt_asym: "str_lt a b \<Longrightarrow> \<not> str_lt b a"
  using str_lt_trans [of a b a] str_lt_irrefl [of a] by blast

lemma str_lt_negtrans: "\<not> str_lt b a \<Longrightarrow> \<not> str_lt c b \<Longrightarrow> \<not> str_lt c a"
  using str_lt_total [of b c] str_lt_trans [of b c a] by blast

subsection \<open>The comparator\<close>

lemma js_lt_sort_val_asym:
  "js_lt (sort_val sb x) (sort_val sb y) \<Longrightarrow> \<not> js_lt (sort_val sb y) (sort_val sb x)"
  by (cases sb) (auto simp: sort_val_def dest: str_lt_asym num_lt_asym)

lemma js_lt_sort_val_irrefl: "\<not> js_lt (sort_val sb x) (sort_val sb x)"
  using js_lt_sort_val_asym by blast

lemma compare_refl: "compare sb so x x = 0"
  by (simp add: compare_def js_gt_def Let_def js_lt_sort_val_irrefl)

lemma compare_antisym: "compare sb so y x = - compare sb so x y"
  using js_lt_sort_val_asym [of sb x y]
  by (auto simp: compare_def js_gt_def Let_def)

lemma compare_NaN:
  "Number (sgpa a) = NaN \<or> Number (sgpa b) = NaN \<Longrightarrow> compare SortSgpa so a b = 0"
  by (auto simp: compare_def js_gt_def sort_val_def Let_def)

lemma Number_NA: "Number (JStr ''N/A'') = NaN"
  by code_simp

subsection \<open>The insertion sort\<close>

lemma mset_insert_by: "mset (insert_by cmp x ys) = add_mset x (mset ys)"
  by (induction ys) simp_all

lemma mset_array_sort: "mset (array_sort cmp xs) = mset xs"
  by (induction xs) (simp_all add: mset_insert_by)

lemma set_array_sort: "set (array_sort cmp xs) = set xs"
  using mset_array_sort [of cmp xs] by (metis set_mset_mset)

lemma length_array_sort: "length (array_sort cmp xs) = length xs"
  using mset_array_sort [of cmp xs] by (metis size_mset)

lemma filter_insert_by_neg: "\<not> P x \<Longrightarrow> filter P (insert_by cmp x ys) = filter P ys"
  by (induction ys) simp_all

lemma filter_insert_by_pos:
  "P x \<Longrightarrow> \<forall>y\<in>set ys. P y \<longrightarrow> \<not> 0 < cmp x y \<Longrightarrow>
     filter P (insert_by cmp x ys) = x # filter P ys"
  by (induction ys) simp_all

lemma array_sort_stable:
  "\<forall>x\<in>set xs. \<forall>y\<in>set xs. P x \<and> P y \<longrightarrow> \<not> 0 < cmp x y \<Longrightarrow>
     filter P (array_sort cmp xs) = filter P xs"
proof (induction xs)
  case Nil
  then show ?case by simp
next
  case (Cons x xs)
  then have IH: "filter P (array_sort cmp xs) = filter P xs" by simp
  show ?case
  proof (cases "P x")
    case True
    have "\<forall>y\<in>set (array_sort cmp xs). P y \<longrightarrow> \<not> 0 < cmp x y"
      using Cons.prems True by (simp add: set_array_sort)
    then show ?thesis using True IH by (simp add: filter_insert_by_pos)
  next
    case False
    then show ?thesis using IH by (simp add: filter_insert_by_neg)
  qed
qed

subsection \<open>Order of the sorted view\<close>

lemma set_insert_by: "set (insert_by cmp x ys) = insert x (set ys)"
  by (induction ys) auto

lemma sorted_wrt_insert_by:
  assumes "sorted_wrt (\<lambda>a b. cmp a b \<le> 0) ys"
    and "\<forall>y\<in>set ys. 0 < cmp x y \<longrightarrow> cmp y x \<le> 0"
    and "\<forall>y\<in>set ys. \<forall>z\<in>set ys. cmp x y \<le> 0 \<longrightarrow> cmp y z \<le> 0 \<longrightarrow> cmp x z \<le> 0"
  shows "sorted_wrt (\<lambda>a b. cmp a b \<le> 0) (insert_by cmp x ys)"
  using assms
proof (induction ys)
  case Nil
  show ?case by simp
next
  case (Cons y ys)
  have s1: "sorted_wrt (\<lambda>a b. cmp a b \<le> 0) ys" and s2: "\<forall>z\<in>set ys. cmp y z \<le> 0"
    using Cons.prems(1) by simp_all
  show ?case
  proof (cases "0 < cmp x y")
    case True
    have p2: "\<forall>y\<in>set ys. 0 < cmp x y \<longrightarrow> cmp y x \<le> 0"
      using Cons.prems(2) by (meson list.set_intros(2))
    have p3: "\<forall>y\<in>set ys. \<forall>z\<in>set ys. cmp x y \<le> 0 \<longrightarrow> cmp y z \<le> 0 \<longrightarrow> cmp x z \<le> 0"
      using Cons.prems(3) by (meson list.set_intros(2))
    have IH: "sorted_wrt (\<lambda>a b. cmp a b \<le> 0) (insert_by cmp x ys)"
      by (rule Cons.IH [OF s1 p2 p3])
    have yx: "cmp y x \<le> 0"
      using Cons.prems(2) True by (meson list.set_intros(1))
    have "\<forall>z\<in>set (insert_by cmp x ys). cmp y z \<le> 0"
      unfolding set_insert_by using yx s2 by blast
    with IH have "sorted_wrt (\<lambda>a b. cmp a b \<le> 0) (y # insert_by cmp x ys)"
      by (simp only: sorted_wrt.simps simp_thms)
    moreover have "insert_by cmp x (y # ys) = y # insert_by cmp x ys"
      using True by (simp only: insert_by.simps if_True)
    ultimately show ?thesis by (simp only:)
  next
    case False
    then have xy: "cmp x y \<le> 0" by linarith
    have "\<forall>z\<in>set ys. cmp x z \<le> 0"
    proof
      fix z assume z: "z \<in> set ys"
      then have yz: "cmp y z \<le> 0" using s2 by blast
      have "y \<in> set (y # ys)" "z \<in> set (y # ys)" using z by simp_all
      with Cons.prems(3) xy yz show "cmp x z \<le> 0" by blast
    qed
    with xy have "\<forall>z\<in>set (y # ys). cmp x z \<le> 0" by (metis set_ConsD)
    with Cons.prems(1) have "sorted_wrt (\<lambda>a b. cmp a b \<le> 0) (x # y # ys)"
      unfolding sorted_wrt.simps by blast
    moreover have "insert_by cmp x (y # ys) = x # y # ys"
      using False by (simp only: insert_by.simps if_False)
    ultimately show ?thesis by (simp only:)
  qed
qed

lemma sorted_wrt_array_sort:
  assumes "\<forall>x\<in>set xs. \<forall>y\<in>set xs. 0 < cmp x y \<longrightarrow> cmp y x \<le> 0"
    and "\<forall>x\<in>set xs. \<forall>y\<in>set xs. \<forall>z\<in>set xs.
           cmp x y \<le> 0 \<longrightarrow> cmp y z \<le> 0 \<longrightarrow> cmp x z \<le> 0"
  shows "sorted_wrt (\<lambda>a b. cmp a b \<le> 0) (array_sort cmp xs)"
  using assms
proof (induction xs)
  case Nil
  show ?case by simp
next
  case (Cons x xs)
  have q1: "\<forall>x\<in>set xs. \<forall>y\<in>set xs. 0 < cmp x y \<longrightarrow> cmp y x \<le> 0"
    using Cons.prems(1) by (meson list.set_intros(2))
  have q2: "\<forall>x\<in>set xs. \<forall>y\<in>set xs. \<forall>z\<in>set xs.
           cmp x y \<le> 0 \<longrightarrow> cmp y z \<le> 0 \<longrightarrow> cmp x z \<le> 0"
    using Cons.prems(2) by (meson list.set_intros(2))
  have IH: "sorted_wrt (\<lambda>a b. cmp a b \<le> 0) (array_sort cmp xs)"
    by (rule Cons.IH [OF q1 q2])
  have r1: "\<forall>y\<in>set (array_sort cmp xs). 0 < cmp x y \<longrightarrow> cmp y x \<le> 0"
    unfolding set_array_sort using Cons.prems(1) by (meson list.set_intros)
  have r2: "\<forall>y\<in>set (array_sort cmp xs). \<forall>z\<in>set (array_sort cmp xs).
           cmp x y \<le> 0 \<longrightarrow> cmp y z \<le> 0 \<longrightarrow> cmp x z \<le> 0"
    unfolding set_array_sort using Cons.prems(2) by (meson list.set_intros)
  show ?case
    unfolding array_sort.simps by (rule sorted_wrt_insert_by [OF IH r1 r2])
qed

lemma compare_le_iff:
  "compare sb so x y \<le> 0 \<longleftrightarrow>
     (if so = Asc then \<not> js_lt (sort_val sb y) (sort_val sb x)
      else \<not> js_lt (sort_val sb x) (sort_val sb y))"
  by (simp add: compare_def js_gt_def Let_def)

lemma js_lt_sort_val_negtrans:
  assumes "sb = SortSgpa \<longrightarrow>
      Number (sgpa x) \<noteq> NaN \<and> Number (sgpa y) \<noteq> NaN \<and> Number (sgpa z) \<noteq> NaN"
    and "\<not> js_lt (sort_val sb y) (sort_val sb x)"
    and "\<not> js_lt (sort_val sb z) (sort_val sb y)"
  shows "\<not> js_lt (sort_val sb z) (sort_val sb x)"
proof (cases sb)
  case SortSgpa
  with assms show ?thesis
    using num_lt_negtrans [of "Number (sgpa x)" "Number (sgpa y)" "Number (sgpa z)"]
    by (simp add: sort_val_def)
next
  case SortUsn
  with assms show ?thesis
    using str_lt_negtrans [of "toLowerCase (usn y)" "toLowerCase (usn x)" "toLowerCase (usn z)"]
    by (simp add: sort_val_def)
next
  case SortName
  with assms show ?thesis
    using str_lt_negtrans [of "toLowerCase (name y)" "toLowerCase (name x)" "toLowerCase (name z)"]
    by (simp add: sort_val_def)
qed

lemma compare_trans:
  assumes "sb = SortSgpa \<longrightarrow>
      Number (sgpa x) \<noteq> NaN \<and> Number (sgpa y) \<noteq> NaN \<and> Number (sgpa z) \<noteq> NaN"
    and "compare sb so x y \<le> 0" and "compare sb so y z \<le> 0"
  shows "compare sb so x z \<le> 0"
proof (cases "so = Asc")
  case True
  with assms(2,3) have "\<not> js_lt (sort_val sb y) (sort_val sb x)"
      "\<not> js_lt (sort_val sb z) (sort_val sb y)"
    by (simp_all add: compare_le_iff)
  with assms(1) have "\<not> js_lt (sort_val sb z) (sort_val sb x)"
    by (rule js_lt_sort_val_negtrans)
  with True show ?thesis by (simp add: compare_le_iff)
next
  case False
  with assms(2,3) have "\<not> js_lt (sort_val sb y) (sort_val sb z)"
      "\<not> js_lt (sort_val sb x) (sort_val sb y)"
    by (simp_all add: compare_le_iff)
  moreover have "sb = SortSgpa \<longrightarrow>
      Number (sgpa z) \<noteq> NaN \<and> Number (sgpa y) \<noteq> NaN \<and> Number (sgpa x) \<noteq> NaN"
    using assms(1) by simp
  ultimately have "\<not> js_lt (sort_val sb x) (sort_val sb z)"
    using js_lt_sort_val_negtrans [of sb z y x] by blast
  with False show ?thesis by (simp add: compare_le_iff)
qed

lemma sorted_students_sorted:
  assumes "sb = SortSgpa \<longrightarrow> (\<forall>s\<in>set R. Number (sgpa s) \<noteq> NaN)"
  shows "sorted_wrt (\<lambda>x y. compare sb so x y \<le> 0) (sorted_students sb so R)"
  unfolding sorted_students_def
proof (rule sorted_wrt_array_sort)
  show "\<forall>x\<in>set R. \<forall>y\<in>set R. 0 < compare sb so x y \<longrightarrow> compare sb so y x \<le> 0"
  proof (intro ballI impI)
    fix x y assume "0 < compare sb so x y"
    then show "compare sb so y x \<le> 0" using compare_antisym [of sb so y x] by simp
  qed
next
  show "\<forall>x\<in>set R. \<forall>y\<in>set R. \<forall>z\<in>set R.
      compare sb so x y \<le> 0 \<longrightarrow> compare sb so y z \<le> 0 \<longrightarrow> compare sb so x z \<le> 0"
  proof (intro ballI impI)
    fix x y z assume m: "x \<in> set R" "y \<in> set R" "z \<in> set R"
      and c: "compare sb so x y \<le> 0" "compare sb so y z \<le> 0"
    have "sb = SortSgpa \<longrightarrow>
        Number (sgpa x) \<noteq> NaN \<and> Number (sgpa y) \<noteq> NaN \<and> Number (sgpa z) \<noteq> NaN"
      using assms m by simp
    then show "compare sb so x z \<le> 0" using c by (rule compare_trans)
  qed
qed

lemma array_sort_all_equal:
  assumes "\<forall>x\<in>set xs. \<forall>y\<in>set xs. \<not> 0 < cmp x y"
  shows "array_sort cmp xs = xs"
proof -
  have "\<forall>x\<in>set xs. \<forall>y\<in>set xs. True \<and> True \<longrightarrow> \<not> 0 < cmp x y"
    using assms by blast
  then have "filter (\<lambda>x. True) (array_sort cmp xs) = filter (\<lambda>x. True) xs"
    by (rule array_sort_stable)
  then show ?thesis by simp
qed

subsection \<open>The engine's sort under a consistent comparator\<close>

text \<open>
  With a consistent comparator the single-run sort of V8 and the stable insertion sort
  return the same list: the leading run is already the insertion sort of its elements,
  and each binary insertion is the insertion of one more element at the end of the input.
\<close>

lemma consistent_flip:
  "consistent_on cmp S \<Longrightarrow> a \<in> S \<Longrightarrow> b \<in> S \<Longrightarrow> (cmp a b < 0) = (0 < cmp b a)"
  unfolding consistent_on_def by blast

lemma consistent_trans:
  "consistent_on cmp S \<Longrightarrow> a \<in> S \<Longrightarrow> b \<in> S \<Longrightarrow> c \<in> S \<Longrightarrow>
     cmp a b \<le> 0 \<Longrightarrow> cmp b c \<le> 0 \<Longrightarrow> cmp a c \<le> 0"
  unfolding consistent_on_def by blast

text \<open>Strictly before, then not after: strictly before.\<close>

lemma consistent_less_le:
  assumes c: "consistent_on cmp S" and m: "a \<in> S" "b \<in> S" "d \<in> S"
    and ab: "cmp a b < 0" and bd: "cmp b d \<le> 0"
  shows "cmp a d < 0"
proof (rule ccontr)
  assume "\<not> cmp a d < 0"
  then have "\<not> 0 < cmp d a" using consistent_flip [OF c m(1) m(3)] by simp
  then have da: "cmp d a \<le> 0" by simp
  have "cmp b a \<le> 0" by (rule consistent_trans [OF c m(2) m(3) m(1) bd da])
  moreover have "0 < cmp b a" using consistent_flip [OF c m(1) m(2)] ab by simp
  ultimately show False by simp
qed

lemma insert_last_Cons:
  "insert_last cmp x (e # l) = (if cmp x e < 0 then x # e # l else e # insert_last cmp x l)"
  by (simp add: insert_last_def)

lemma insert_last_Nil: "insert_last cmp x [] = [x]"
  by (simp add: insert_last_def)

lemma insert_by_insert_last_commute:
  assumes c: "consistent_on cmp S" and p: "p \<in> S" and x: "x \<in> S" and l: "set l \<subseteq> S"
  shows "insert_by cmp p (insert_last cmp x l) = insert_last cmp x (insert_by cmp p l)"
  using l
proof (induction l)
  case Nil
  show ?case
    using consistent_flip [OF c x p]
    by (simp add: insert_last_Nil insert_last_Cons)
next
  case (Cons e l)
  then have e: "e \<in> S" and l: "set l \<subseteq> S" by simp_all
  note IH = Cons.IH [OF l]
  show ?case
  proof (cases "cmp x e < 0")
    case xe: True
    show ?thesis
    proof (cases "0 < cmp p e")
      case pe: True
      have "cmp e p < 0" using consistent_flip [OF c e p] pe by simp
      with xe have "cmp x p < 0"
        using consistent_less_le [OF c x e p xe] by simp
      then have "0 < cmp p x" using consistent_flip [OF c x p] by simp
      with xe pe show ?thesis by (simp add: insert_last_Cons)
    next
      case pe: False
      show ?thesis
        using xe pe consistent_flip [OF c x p] by (simp add: insert_last_Cons)
    qed
  next
    case xe: False
    show ?thesis
    proof (cases "0 < cmp p e")
      case pe: True
      with xe IH show ?thesis by (simp add: insert_last_Cons)
    next
      case pe: False
      then have pe': "cmp p e \<le> 0" by simp
      have "\<not> 0 < cmp e x" using consistent_flip [OF c x e] xe by simp
      then have ex: "cmp e x \<le> 0" by simp
      have "cmp p x \<le> 0" by (rule consistent_trans [OF c p e x pe' ex])
      then have "\<not> cmp x p < 0" using consistent_flip [OF c x p] by simp
      with xe pe show ?thesis by (simp add: insert_last_Cons)
    qed
  qed
qed

lemma array_sort_snoc:
  assumes c: "consistent_on cmp S" and x: "x \<in> S" and P: "set P \<subseteq> S"
  shows "array_sort cmp (P @ [x]) = insert_last cmp x (array_sort cmp P)"
  using P
proof (induction P)
  case Nil
  show ?case by (simp add: insert_last_Nil)
next
  case (Cons p P)
  then have p: "p \<in> S" and P: "set P \<subseteq> S" by simp_all
  have s: "set (array_sort cmp P) \<subseteq> S" using P by (simp add: set_array_sort)
  have "array_sort cmp ((p # P) @ [x]) = insert_by cmp p (array_sort cmp (P @ [x]))" by simp
  also have "\<dots> = insert_by cmp p (insert_last cmp x (array_sort cmp P))"
    by (simp only: Cons.IH [OF P])
  also have "\<dots> = insert_last cmp x (insert_by cmp p (array_sort cmp P))"
    by (rule insert_by_insert_last_commute [OF c p x s])
  finally show ?case by simp
qed

lemma bsearch_first:
  assumes "\<forall>i j. i \<le> j \<longrightarrow> j < length l \<longrightarrow> cmp x (l ! i) < 0 \<longrightarrow> cmp x (l ! j) < 0"
    and "left \<le> right" and "right \<le> length l"
    and "\<forall>i<left. \<not> cmp x (l ! i) < 0"
    and "\<forall>i. right \<le> i \<longrightarrow> i < length l \<longrightarrow> cmp x (l ! i) < 0"
  shows "bsearch cmp x l left right = length (takeWhile (\<lambda>e. \<not> cmp x e < 0) l)"
  using assms
proof (induction cmp x l left right rule: bsearch.induct)
  case (1 cmp pivot xs left right)
  note mono = "1.prems"(1) and lr = "1.prems"(2) and rl = "1.prems"(3)
    and lo = "1.prems"(4) and hi = "1.prems"(5)
  show ?case
  proof (cases "left < right")
    case False
    with lr have eq: "left = right" by simp
    have "takeWhile (\<lambda>e. \<not> cmp pivot e < 0) xs = take left xs"
    proof (rule takeWhile_eq_take_P_nth)
      fix i assume "i < left" "i < length xs"
      then show "\<not> cmp pivot (xs ! i) < 0" using lo by blast
    next
      assume "left < length xs"
      then have "cmp pivot (xs ! left) < 0" using hi eq by blast
      then show "\<not> \<not> cmp pivot (xs ! left) < 0" by simp
    qed
    then have "length (takeWhile (\<lambda>e. \<not> cmp pivot e < 0) xs) = left"
      using rl eq by simp
    moreover have "bsearch cmp pivot xs left right = left"
      using False by (subst bsearch.simps) simp
    ultimately show ?thesis by simp
  next
    case True
    define mid where "mid = left + (right - left) div 2"
    have m: "left \<le> mid" "mid < right" using True by (simp_all add: mid_def) 
    show ?thesis
    proof (cases "cmp pivot (xs ! mid) < 0")
      case c: True
      have hi': "\<forall>i. mid \<le> i \<longrightarrow> i < length xs \<longrightarrow> cmp pivot (xs ! i) < 0"
        using mono c by blast
      have "bsearch cmp pivot xs left mid =
          length (takeWhile (\<lambda>e. \<not> cmp pivot e < 0) xs)"
        using "1.IH"(1) [OF True mid_def c mono m(1) _ lo hi'] m(2) rl by simp
      moreover have "bsearch cmp pivot xs left right = bsearch cmp pivot xs left mid"
        using True c by (subst bsearch.simps) (simp add: mid_def Let_def)
      ultimately show ?thesis by simp
    next
      case c: False
      have lo': "\<forall>i<mid + 1. \<not> cmp pivot (xs ! i) < 0"
      proof (intro allI impI)
        fix i assume i: "i < mid + 1"
        show "\<not> cmp pivot (xs ! i) < 0"
        proof
          assume "cmp pivot (xs ! i) < 0"
          moreover have "i \<le> mid" "mid < length xs" using i m(2) rl by simp_all
          ultimately have "cmp pivot (xs ! mid) < 0" using mono by blast
          with c show False by simp
        qed
      qed
      have "bsearch cmp pivot xs (mid + 1) right =
          length (takeWhile (\<lambda>e. \<not> cmp pivot e < 0) xs)"
        using "1.IH"(2) [OF True mid_def c mono _ rl lo' hi] m(2) by simp
      moreover have "bsearch cmp pivot xs left right = bsearch cmp pivot xs (mid + 1) right"
        using True c by (subst bsearch.simps) (simp add: mid_def Let_def)
      ultimately show ?thesis by simp
    qed
  qed
qed

lemma consistent_sorted:
  assumes c: "consistent_on cmp S" and P: "set P \<subseteq> S"
  shows "sorted_wrt (\<lambda>a b. cmp a b \<le> 0) (array_sort cmp P)"
proof (rule sorted_wrt_array_sort)
  show "\<forall>x\<in>set P. \<forall>y\<in>set P. 0 < cmp x y \<longrightarrow> cmp y x \<le> 0"
  proof (intro ballI impI)
    fix x y assume "x \<in> set P" "y \<in> set P" "0 < cmp x y"
    then have "cmp y x < 0" using consistent_flip [OF c, of y x] P by auto
    then show "cmp y x \<le> 0" by simp
  qed
  show "\<forall>x\<in>set P. \<forall>y\<in>set P. \<forall>z\<in>set P. cmp x y \<le> 0 \<longrightarrow> cmp y z \<le> 0 \<longrightarrow> cmp x z \<le> 0"
  proof (intro ballI impI)
    fix x y z assume "x \<in> set P" "y \<in> set P" "z \<in> set P" "cmp x y \<le> 0" "cmp y z \<le> 0"
    then show "cmp x z \<le> 0" using consistent_trans [OF c, of x y z] P by auto
  qed
qed

lemma binary_step_insert_last:
  assumes c: "consistent_on cmp S" and x: "x \<in> S" and l: "set l \<subseteq> S"
    and s: "sorted_wrt (\<lambda>a b. cmp a b \<le> 0) l"
  shows "(let k = bsearch cmp x l 0 (length l) in take k l @ x # drop k l) = insert_last cmp x l"
proof -
  have mono: "\<forall>i j. i \<le> j \<longrightarrow> j < length l \<longrightarrow> cmp x (l ! i) < 0 \<longrightarrow> cmp x (l ! j) < 0"
  proof (intro allI impI)
    fix i j assume ij: "i \<le> j" "j < length l" and xi: "cmp x (l ! i) < 0"
    show "cmp x (l ! j) < 0"
    proof (cases "i = j")
      case True
      with xi show ?thesis by simp
    next
      case False
      with ij have "i < j" by simp
      then have "cmp (l ! i) (l ! j) \<le> 0" using sorted_wrt_nth_less [OF s _ ij(2)] by simp
      moreover have "l ! i \<in> S" "l ! j \<in> S" using l ij by auto
      ultimately show ?thesis using consistent_less_le [OF c x _ _ xi] by blast
    qed
  qed
  have "bsearch cmp x l 0 (length l) = length (takeWhile (\<lambda>e. \<not> cmp x e < 0) l)"
    using mono by (intro bsearch_first) simp_all
  then show ?thesis
    unfolding insert_last_def Let_def
    using takeWhile_eq_take [of "\<lambda>e. \<not> cmp x e < 0" l]
      dropWhile_eq_drop [of "\<lambda>e. \<not> cmp x e < 0" l]
    by simp
qed

lemma BinaryInsertionSort_array_sort:
  assumes c: "consistent_on cmp S"
  shows "set P \<subseteq> S \<Longrightarrow> set rest \<subseteq> S \<Longrightarrow>
     BinaryInsertionSort cmp (array_sort cmp P) rest = array_sort cmp (P @ rest)"
proof (induction rest arbitrary: P)
  case Nil
  show ?case by (simp add: BinaryInsertionSort_def)
next
  case (Cons r rest)
  then have r: "r \<in> S" and rest: "set rest \<subseteq> S" and P: "set P \<subseteq> S" by simp_all
  have sP: "set (array_sort cmp P) \<subseteq> S" using P by (simp add: set_array_sort)
  have step: "(let k = bsearch cmp r (array_sort cmp P) 0 (length (array_sort cmp P))
               in take k (array_sort cmp P) @ r # drop k (array_sort cmp P)) =
              array_sort cmp (P @ [r])"
    using binary_step_insert_last [OF c r sP consistent_sorted [OF c P]]
      array_sort_snoc [OF c r P] by simp
  have P': "set (P @ [r]) \<subseteq> S" using P r by simp
  have "BinaryInsertionSort cmp (array_sort cmp P) (r # rest) =
        BinaryInsertionSort cmp (array_sort cmp (P @ [r])) rest"
    unfolding BinaryInsertionSort_def foldl_Cons by (simp only: step)
  also have "\<dots> = array_sort cmp ((P @ [r]) @ rest)" by (rule Cons.IH [OF P' rest])
  finally show ?case by simp
qed

lemma run_tail_successively:
  "successively (\<lambda>a b. if desc then cmp b a < 0 else \<not> cmp b a < 0)
     (prev # take (run_tail cmp desc prev zs) zs)"
proof (induction zs arbitrary: prev)
  case Nil
  show ?case by simp
next
  case (Cons z zs)
  show ?case using Cons.IH [of z] by (cases desc) (auto simp: Let_def not_le)
qed

lemma array_sort_sorted_id:
  "sorted_wrt (\<lambda>a b. cmp a b \<le> 0) l \<Longrightarrow> array_sort cmp l = l"
proof (induction l)
  case Nil
  show ?case by simp
next
  case (Cons x l)
  then have IH: "array_sort cmp l = l" and le: "\<forall>y\<in>set l. cmp x y \<le> 0" by simp_all
  show ?case
  proof (cases l)
    case Nil
    then show ?thesis by simp
  next
    case (Cons y ys)
    then have "\<not> 0 < cmp x y" using le by auto
    then show ?thesis using IH Cons by simp
  qed
qed

lemma ascending_run_sorted:
  assumes c: "consistent_on cmp S"
  shows "set l \<subseteq> S \<Longrightarrow> successively (\<lambda>a b. \<not> cmp b a < 0) l \<Longrightarrow>
     sorted_wrt (\<lambda>a b. cmp a b \<le> 0) l"
proof (induction l rule: induct_list012)
  case 1
  show ?case by simp
next
  case (2 x)
  show ?case by simp
next
  case (3 x y zs)
  then have x: "x \<in> S" and y: "y \<in> S" and zs: "set (y # zs) \<subseteq> S" by simp_all
  have s: "sorted_wrt (\<lambda>a b. cmp a b \<le> 0) (y # zs)"
    using "3.IH"(2) [OF zs] "3.prems"(2) by simp
  have "\<not> cmp y x < 0" using "3.prems"(2) by simp
  then have "\<not> 0 < cmp x y" using consistent_flip [OF c y x] by simp
  then have xy: "cmp x y \<le> 0" by simp
  have "\<forall>z\<in>set (y # zs). cmp x z \<le> 0"
  proof
    fix z assume z: "z \<in> set (y # zs)"
    show "cmp x z \<le> 0"
    proof (cases "z = y")
      case True
      with xy show ?thesis by simp
    next
      case False
      with z have "z \<in> set zs" by simp
      then have "cmp y z \<le> 0" using s by simp
      moreover have "z \<in> S" using z zs by blast
      ultimately show ?thesis using consistent_trans [OF c x y _ xy] by blast
    qed
  qed
  with s show ?case by simp
qed

lemma descending_run_reversed:
  assumes c: "consistent_on cmp S"
  shows "set l \<subseteq> S \<Longrightarrow> successively (\<lambda>a b. cmp b a < 0) l \<Longrightarrow>
     array_sort cmp l = rev l"
proof (induction l rule: rev_induct)
  case Nil
  show ?case by simp
next
  case (snoc x P)
  then have x: "x \<in> S" and P: "set P \<subseteq> S" by simp_all
  have sP: "successively (\<lambda>a b. cmp b a < 0) P"
    using snoc.prems(2) by (simp add: successively_append_iff)
  have IH: "array_sort cmp P = rev P" by (rule snoc.IH [OF P sP])
  have "array_sort cmp (P @ [x]) = insert_last cmp x (rev P)"
    using array_sort_snoc [OF c x P] IH by simp
  also have "\<dots> = x # rev P"
  proof (cases P rule: rev_cases)
    case Nil
    then show ?thesis by (simp add: insert_last_Nil)
  next
    case (snoc Q q)
    then have "cmp x q < 0" using \<open>successively (\<lambda>a b. cmp b a < 0) (P @ [x])\<close>
      by (simp add: successively_append_iff)
    then show ?thesis using snoc by (simp add: insert_last_Cons)
  qed
  finally show ?case by simp
qed

lemma CountAndMakeRun_array_sort:
  assumes c: "consistent_on cmp (set xs)" and len: "2 \<le> length xs"
  shows "\<exists>n. CountAndMakeRun cmp xs = (array_sort cmp (take n xs), drop n xs)"
proof -
  from len obtain x y zs where xs: "xs = x # y # zs"
    by (cases xs; cases "tl xs") auto
  define desc where "desc = (cmp y x < 0)"
  define k where "k = run_tail cmp desc y zs"
  define n where "n = 2 + k"
  let ?R = "\<lambda>a b. if desc then cmp b a < 0 else \<not> cmp b a < 0"
  have tk: "take n xs = x # y # take k zs" by (simp add: xs n_def)
  have "successively ?R (y # take k zs)" unfolding k_def by (rule run_tail_successively)
  moreover have "?R x y" by (simp add: desc_def)
  ultimately have chain: "successively ?R (take n xs)" unfolding tk by simp
  have sub: "set (take n xs) \<subseteq> set xs" by (rule set_take_subset)
  have run: "(if desc then rev (take n xs) else take n xs) = array_sort cmp (take n xs)"
  proof (cases desc)
    case True
    then have "successively (\<lambda>a b. cmp b a < 0) (take n xs)" using chain by simp
    then show ?thesis using descending_run_reversed [OF c sub] True by simp
  next
    case False
    then have "successively (\<lambda>a b. \<not> cmp b a < 0) (take n xs)" using chain by simp
    then have "sorted_wrt (\<lambda>a b. cmp a b \<le> 0) (take n xs)"
      by (rule ascending_run_sorted [OF c sub])
    then show ?thesis using False by (simp add: array_sort_sorted_id)
  qed
  have "CountAndMakeRun cmp xs = (if desc then rev (take n xs) else take n xs, drop n xs)"
    unfolding CountAndMakeRun_def xs by (simp add: Let_def desc_def k_def n_def)
  then show ?thesis using run by auto
qed

lemma v8_sort_array_sort:
  assumes c: "consistent_on cmp (set xs)"
  shows "v8_sort cmp xs = array_sort cmp xs"
proof (cases "length xs < 2")
  case True
  then have "xs = [] \<or> (\<exists>x. xs = [x])"
    by (cases xs; cases "tl xs") auto
  then show ?thesis using True by (auto simp: v8_sort_def)
next
  case False
  then obtain n where n: "CountAndMakeRun cmp xs = (array_sort cmp (take n xs), drop n xs)"
    using CountAndMakeRun_array_sort [OF c] by force
  have "v8_sort cmp xs = BinaryInsertionSort cmp (array_sort cmp (take n xs)) (drop n xs)"
    using False by (simp add: v8_sort_def n)
  also have "\<dots> = array_sort cmp (take n xs @ drop n xs)"
    by (rule BinaryInsertionSort_array_sort [OF c]) (simp_all add: set_take_subset set_drop_subset)
  finally show ?thesis by simp
qed

lemma compare_consistent:
  assumes "sb = SortSgpa \<longrightarrow> (\<forall>s\<in>set R. Number (sgpa s) \<noteq> NaN)"
  shows "consistent_on (compare sb so) (set R)"
  unfolding consistent_on_def
proof (intro conjI ballI impI)
  fix a b
  show "(compare sb so a b < 0) = (0 < compare sb so b a)"
    using compare_antisym [of sb so b a] by simp
next
  fix a b c assume m: "a \<in> set R" "b \<in> set R" "c \<in> set R"
    and le: "compare sb so a b \<le> 0" "compare sb so b c \<le> 0"
  have "sb = SortSgpa \<longrightarrow>
      Number (sgpa a) \<noteq> NaN \<and> Number (sgpa b) \<noteq> NaN \<and> Number (sgpa c) \<noteq> NaN"
    using assms m by simp
  then show "compare sb so a c \<le> 0" using le by (rule compare_trans)
qed

lemma sorted_v8_sorted_students:
  assumes "sb = SortSgpa \<longrightarrow> (\<forall>s\<in>set R. Number (sgpa s) \<noteq> NaN)"
  shows "sorted_v8 sb so R = sorted_students sb so R"
  unfolding sorted_v8_def sorted_students_def
  by (rule v8_sort_array_sort [OF compare_consistent [OF assms]])

subsection \<open>Stability\<close>

text \<open>
  C6, as the specification words it: the sort is stable for every record list, sort key
  and direction. With a score that does not coerce to a number the comparator is not
  consistent, and the engine's order is not stable: sorted by score descending, V8 turns
  the scores 8, 9, "N/A", 9 into 9, 9, 8, "N/A". The third and the fourth record compare
  equal (0), the third comes first in the input and the fourth comes first in the output.
\<close>

theorem sorted_v8_stable_counterexample:
  "compare SortSgpa Desc
     \<lparr>usn = ''X3'', name = ''Cara'', sgpa = JStr ''N/A''\<rparr>
     \<lparr>usn = ''X4'', name = ''Dev'', sgpa = JNum (Fin 9)\<rparr> = 0 \<and>
   sorted_v8 SortSgpa Desc
     [\<lparr>usn = ''X1'', name = ''Asha'', sgpa = JNum (Fin 8)\<rparr>,
      \<lparr>usn = ''X2'', name = ''Bina'', sgpa = JNum (Fin 9)\<rparr>,
      \<lparr>usn = ''X3'', name = ''Cara'', sgpa = JStr ''N/A''\<rparr>,
      \<lparr>usn = ''X4'', name = ''Dev'', sgpa = JNum (Fin 9)\<rparr>] =
     [\<lparr>usn = ''X2'', name = ''Bina'', sgpa = JNum (Fin 9)\<rparr>,
      \<lparr>usn = ''X4'', name = ''Dev'', sgpa = JNum (Fin 9)\<rparr>,
      \<lparr>usn = ''X1'', name = ''Asha'', sgpa = JNum (Fin 8)\<rparr>,
      \<lparr>usn = ''X3'', name = ''Cara'', sgpa = JStr ''N/A''\<rparr>]"
proof -
  let ?x1 = "\<lparr>usn = ''X1'', name = ''Asha'', sgpa = JNum (Fin 8)\<rparr>"
  let ?x2 = "\<lparr>usn = ''X2'', name = ''Bina'', sgpa = JNum (Fin 9)\<rparr>"
  let ?x3 = "\<lparr>usn = ''X3'', name = ''Cara'', sgpa = JStr ''N/A''\<rparr>"
  let ?x4 = "\<lparr>usn = ''X4'', name = ''Dev'', sgpa = JNum (Fin 9)\<rparr>"
  let ?cmp = "compare SortSgpa Desc"
  have c: "?cmp ?x2 ?x1 = - 1" "?cmp ?x3 ?x2 = 0" "?cmp ?x3 ?x1 = 0"
      "?cmp ?x4 ?x1 = - 1" "?cmp ?x4 ?x2 = 0" "?cmp ?x3 ?x4 = 0"
    by (simp_all add: compare_def sort_val_def js_gt_def Number_NA [simplified])
  have run: "CountAndMakeRun ?cmp [?x1, ?x2, ?x3, ?x4] = ([?x2, ?x1], [?x3, ?x4])"
    by (simp add: CountAndMakeRun_def c)
  have "v8_sort ?cmp [?x1, ?x2, ?x3, ?x4] = [?x2, ?x4, ?x1, ?x3]"
    by (simp add: v8_sort_def run BinaryInsertionSort_def c)
  with c(6) show ?thesis by (simp only: sorted_v8_def simp_thms)
qed

text \<open>
  C6, amended: whenever the comparator is consistent on the record list (the sort key is
  usn or name, or every score coerces to a number), the sort is stable: two records that
  compare equal under the active comparator keep their relative order, that is, the
  copies of the two appear in the sorted view in the order they had in the input. The
  sorted view is then in comparator order and a rearrangement of the input, which is the
  result ECMAScript fixes for every engine, and the single-run sort of V8 returns this
  very view.
\<close>

theorem sorted_students_stable:
  "(sb = SortSgpa \<longrightarrow> (\<forall>s\<in>set R. Number (sgpa s) \<noteq> NaN)) \<longrightarrow>
     (compare sb so a b = 0 \<longrightarrow>
        filter (\<lambda>x. x = a \<or> x = b) (sorted_students sb so R) =
        filter (\<lambda>x. x = a \<or> x = b) R) \<and>
     sorted_wrt (\<lambda>x y. compare sb so x y \<le> 0) (sorted_students sb so R) \<and>
     mset (sorted_students sb so R) = mset R \<and>
     sorted_v8 sb so R = sorted_students sb so R"
proof (intro conjI impI)
  assume eq: "compare sb so a b = 0"
  then have "compare sb so b a = 0" using compare_antisym [of sb so b a] by simp
  with eq have "\<forall>x\<in>set R. \<forall>y\<in>set R.
      (x = a \<or> x = b) \<and> (y = a \<or> y = b) \<longrightarrow> \<not> 0 < compare sb so x y"
    by (auto simp: compare_refl)
  then show "filter (\<lambda>x. x = a \<or> x = b) (sorted_students sb so R) =
      filter (\<lambda>x. x = a \<or> x = b) R"
    unfolding sorted_students_def by (rule array_sort_stable)
next
  assume "sb = SortSgpa \<longrightarrow> (\<forall>s\<in>set R. Number (sgpa s) \<noteq> NaN)"
  then show "sorted_wrt (\<lambda>x y. compare sb so x y \<le> 0) (sorted_students sb so R)"
    by (rule sorted_students_sorted)
next
  show "mset (sorted_students sb so R) = mset R"
    by (simp add: sorted_students_def mset_array_sort)
next
  assume "sb = SortSgpa \<longrightarrow> (\<forall>s\<in>set R. Number (sgpa s) \<noteq> NaN)"
  then show "sorted_v8 sb so R = sorted_students sb so R"
    by (rule sorted_v8_sorted_students)
qed

theorem sorted_students_stable_witness:
  "compare SortSgpa Desc
     \<lparr>usn = ''X1'', name = ''Alice'', sgpa = JNum (Fin (19 / 2))\<rparr>
     \<lparr>usn = ''X2'', name = ''Bob'', sgpa = JNum (Fin (19 / 2))\<rparr> = 0 \<and>
   filter (\<lambda>x. x = \<lparr>usn = ''X1'', name = ''Alice'', sgpa = JNum (Fin (19 / 2))\<rparr> \<or>
               x = \<lparr>usn = ''X2'', name = ''Bob'', sgpa = JNum (Fin (19 / 2))\<rparr>)
     (sorted_students SortSgpa Desc
        [\<lparr>usn = ''X3'', name = ''Cara'', sgpa = JNum (Fin (29 / 4))\<rparr>,
         \<lparr>usn = ''X1'', name = ''Alice'', sgpa = JNum (Fin (19 / 2))\<rparr>,
         \<lparr>usn = ''X2'', name = ''Bob'', sgpa = JNum (Fin (19 / 2))\<rparr>]) =
     [\<lparr>usn = ''X1'', name = ''Alice'', sgpa = JNum (Fin (19 / 2))\<rparr>,
      \<lparr>usn = ''X2'', name = ''Bob'', sgpa = JNum (Fin (19 / 2))\<rparr>]"
proof -
  let ?a = "\<lparr>usn = ''X1'', name = ''Alice'', sgpa = JNum (Fin (19 / 2))\<rparr>"
  let ?b = "\<lparr>usn = ''X2'', name = ''Bob'', sgpa = JNum (Fin (19 / 2))\<rparr>"
  let ?c = "\<lparr>usn = ''X3'', name = ''Cara'', sgpa = JNum (Fin (29 / 4))\<rparr>"
  have h0: "SortSgpa = SortSgpa \<longrightarrow> (\<forall>s\<in>set [?c, ?a, ?b]. Number (sgpa s) \<noteq> NaN)"
    by simp
  have h: "compare SortSgpa Desc ?a ?b = 0"
    by (simp add: compare_def sort_val_def js_gt_def)
  from sorted_students_stable [of SortSgpa "[?c, ?a, ?b]" Desc ?a ?b] h0 h
  have "filter (\<lambda>x. x = ?a \<or> x = ?b) (sorted_students SortSgpa Desc [?c, ?a, ?b]) =
        filter (\<lambda>x. x = ?a \<or> x = ?b) [?c, ?a, ?b]"
    by blast
  with h show ?thesis by simp
qed

subsection \<open>Scores that are not numbers\<close>

lemma compare_sgpa_le_iff:
  "compare SortSgpa so x y \<le> 0 \<longleftrightarrow>
     (if so = Asc then \<not> num_lt (Number (sgpa y)) (Number (sgpa x))
      else \<not> num_lt (Number (sgpa x)) (Number (sgpa y)))"
  by (cases so) (simp_all add: compare_le_iff sort_val_def)

text \<open>
  C2, as the specification words it: sorting by score puts every record whose score does
  not coerce to a number at one extreme of the output. The comparator returns 0 as soon
  as one score is \<open>NaN\<close>, so here every comparison is 0, the stable sort leaves the list
  as it is, and the record without a numeric score stays between two records with one.
\<close>

theorem sorted_students_nan_counterexample:
  "Number (sgpa \<lparr>usn = ''X2'', name = ''Bob'', sgpa = JStr ''N/A''\<rparr>) = NaN \<and>
   Number (sgpa \<lparr>usn = ''X1'', name = ''Alice'', sgpa = JNum (Fin (17 / 2))\<rparr>) \<noteq> NaN \<and>
   Number (sgpa \<lparr>usn = ''X3'', name = ''Cara'', sgpa = JNum (Fin (17 / 2))\<rparr>) \<noteq> NaN \<and>
   sorted_students SortSgpa Desc
     [\<lparr>usn = ''X1'', name = ''Alice'', sgpa = JNum (Fin (17 / 2))\<rparr>,
      \<lparr>usn = ''X2'', name = ''Bob'', sgpa = JStr ''N/A''\<rparr>,
      \<lparr>usn = ''X3'', name = ''Cara'', sgpa = JNum (Fin (17 / 2))\<rparr>] =
     [\<lparr>usn = ''X1'', name = ''Alice'', sgpa = JNum (Fin (17 / 2))\<rparr>,
      \<lparr>usn = ''X2'', name = ''Bob'', sgpa = JStr ''N/A''\<rparr>,
      \<lparr>usn = ''X3'', name = ''Cara'', sgpa = JNum (Fin (17 / 2))\<rparr>]"
  by (simp add: Number_NA [simplified] sorted_students_def compare_def sort_val_def js_gt_def)

text \<open>
  C2, amended: sorting by score never fails and its result is a rearrangement of the
  input that depends on the input alone; a record whose score does not coerce to a
  number compares equal (0) to every record, and is not moved to an extreme: a list in
  which all records compare equal is returned as it is. When every score coerces to a
  number, the output is ordered by the numeric score in the chosen direction.
\<close>

theorem sorted_students_score_order:
  "(Number (sgpa a) = NaN \<or> Number (sgpa b) = NaN \<longrightarrow> compare SortSgpa so a b = 0) \<and>
   ((\<forall>x\<in>set R. \<forall>y\<in>set R. compare SortSgpa so x y = 0) \<longrightarrow>
      sorted_students SortSgpa so R = R) \<and>
   ((\<forall>s\<in>set R'. Number (sgpa s) \<noteq> NaN) \<longrightarrow>
      sorted_wrt (\<lambda>x y. if so = Asc then \<not> num_lt (Number (sgpa y)) (Number (sgpa x))
                        else \<not> num_lt (Number (sgpa x)) (Number (sgpa y)))
        (sorted_students SortSgpa so R')) \<and>
   mset (sorted_students SortSgpa so R') = mset R'"
proof (intro conjI impI)
  assume "Number (sgpa a) = NaN \<or> Number (sgpa b) = NaN"
  then show "compare SortSgpa so a b = 0" by (rule compare_NaN)
next
  assume "\<forall>x\<in>set R. \<forall>y\<in>set R. compare SortSgpa so x y = 0"
  then have "\<forall>x\<in>set R. \<forall>y\<in>set R. \<not> 0 < compare SortSgpa so x y" by simp
  then show "sorted_students SortSgpa so R = R"
    unfolding sorted_students_def by (rule array_sort_all_equal)
next
  assume "\<forall>s\<in>set R'. Number (sgpa s) \<noteq> NaN"
  then have "sorted_wrt (\<lambda>x y. compare SortSgpa so x y \<le> 0) (sorted_students SortSgpa so R')"
    by (intro sorted_students_sorted) simp
  then show "sorted_wrt (\<lambda>x y. if so = Asc then \<not> num_lt (Number (sgpa y)) (Number (sgpa x))
                        else \<not> num_lt (Number (sgpa x)) (Number (sgpa y)))
        (sorted_students SortSgpa so R')"
    by (simp only: compare_sgpa_le_iff)
next
  show "mset (sorted_students SortSgpa so R') = mset R'"
    by (simp add: sorted_students_def mset_array_sort)
qed

theorem sorted_students_score_order_witness:
  "compare SortSgpa Desc
     \<lparr>usn = ''X2'', name = ''Bob'', sgpa = JUndefined\<rparr>
     \<lparr>usn = ''X1'', name = ''Alice'', sgpa = JNum (Fin (17 / 2))\<rparr> = 0 \<and>
   sorted_students SortSgpa Desc
     [\<lparr>usn = ''X1'', name = ''Alice'', sgpa = JNum (Fin (17 / 2))\<rparr>,
      \<lparr>usn = ''X2'', name = ''Bob'', sgpa = JUndefined\<rparr>,
      \<lparr>usn = ''X3'', name = ''Cara'', sgpa = JNum (Fin (17 / 2))\<rparr>] =
     [\<lparr>usn = ''X1'', name = ''Alice'', sgpa = JNum (Fin (17 / 2))\<rparr>,
      \<lparr>usn = ''X2'', name = ''Bob'', sgpa = JUndefined\<rparr>,
      \<lparr>usn = ''X3'', name = ''Cara'', sgpa = JNum (Fin (17 / 2))\<rparr>] \<and>
   sorted_wrt (\<lambda>x y. \<not> num_lt (Number (sgpa x)) (Number (sgpa y)))
     (sorted_students SortSgpa Desc
        [\<lparr>usn = ''X3'', name = ''Cara'', sgpa = JNum (Fin (36 / 5))\<rparr>,
         \<lparr>usn = ''X1'', name = ''Alice'', sgpa = JNum (Fin (19 / 2))\<rparr>])"
proof -
  let ?a = "\<lparr>usn = ''X1'', name = ''Alice'', sgpa = JNum (Fin (17 / 2))\<rparr>"
  let ?b = "\<lparr>usn = ''X2'', name = ''Bob'', sgpa = JUndefined\<rparr>"
  let ?c = "\<lparr>usn = ''X3'', name = ''Cara'', sgpa = JNum (Fin (17 / 2))\<rparr>"
  let ?R' = "[\<lparr>usn = ''X3'', name = ''Cara'', sgpa = JNum (Fin (36 / 5))\<rparr>,
         \<lparr>usn = ''X1'', name = ''Alice'', sgpa = JNum (Fin (19 / 2))\<rparr>]"
  note th = sorted_students_score_order [of ?b ?a Desc "[?a, ?b, ?c]" ?R']
  have h1: "Number (sgpa ?b) = NaN \<or> Number (sgpa ?a) = NaN" by simp
  have h2: "\<forall>x\<in>set [?a, ?b, ?c]. \<forall>y\<in>set [?a, ?b, ?c]. compare SortSgpa Desc x y = 0"
    by (simp add: compare_def sort_val_def js_gt_def)
  have h3: "\<forall>s\<in>set ?R'. Number (sgpa s) \<noteq> NaN" by simp
  from th h1 have c1: "compare SortSgpa Desc ?b ?a = 0" by blast
  from th h2 have c2: "sorted_students SortSgpa Desc [?a, ?b, ?c] = [?a, ?b, ?c]" by blast
  from th h3 have "sorted_wrt (\<lambda>x y. if Desc = Asc
        then \<not> num_lt (Number (sgpa y)) (Number (sgpa x))
        else \<not> num_lt (Number (sgpa x)) (Number (sgpa y)))
        (sorted_students SortSgpa Desc ?R')" by blast
  then have c3: "sorted_wrt (\<lambda>x y. \<not> num_lt (Number (sgpa x)) (Number (sgpa y)))
        (sorted_students SortSgpa Desc ?R')"
    by (simp only: sortOrder.distinct if_False)
  from c1 c2 c3 show ?thesis by (intro conjI)
qed

section \<open>Ties and the order of ranks\<close>

subsection \<open>Ties\<close>

lemma strict_eq_iff: "strict_eq u v \<longleftrightarrow> u = v \<and> u \<noteq> JNum NaN"
  by (cases u; cases v) auto

lemma is_number_Number: "is_number u \<Longrightarrow> u = JNum (Number u) \<and> Number u \<noteq> NaN"
  by (cases u) simp_all

lemma is_number_eq_iff:
  "is_number u \<Longrightarrow> is_number v \<Longrightarrow> u = v \<longleftrightarrow> Number u = Number v"
  using is_number_Number [of u] is_number_Number [of v] by metis

lemma rank_of_tie:
  assumes "i < length srt" "0 < i" "strict_eq (sgpa (srt ! (i - 1))) (sgpa (srt ! i))"
  shows "\<exists>j<i. rank_of srt (srt ! i) i = int j + 1 \<and>
                strict_eq (sgpa (srt ! j)) (sgpa (srt ! i)) \<and>
                (\<forall>m<j. \<not> strict_eq (sgpa (srt ! m)) (sgpa (srt ! i)))"
  using rank_of_law [OF assms(1)] assms(2,3) by (simp only: simp_thms if_True)

lemma rank_of_no_tie:
  "\<not> (0 < i \<and> strict_eq (sgpa (srt ! (i - 1))) (sgpa (srt ! i))) \<Longrightarrow>
     rank_of srt (srt ! i) i = int i + 1"
  unfolding rank_of_def by (simp only: if_False)

lemma rank_of_le:
  assumes "i < length srt"
  shows "rank_of srt (srt ! i) i \<le> int i + 1"
proof (cases "0 < i \<and> strict_eq (sgpa (srt ! (i - 1))) (sgpa (srt ! i))")
  case True
  then obtain j where "j < i" "rank_of srt (srt ! i) i = int j + 1"
    using rank_of_tie [OF assms] by blast
  then show ?thesis by simp
next
  case False
  then show ?thesis using rank_of_no_tie [of i srt] by simp
qed

text \<open>
  C4, as the specification words it: two adjacent records are tied exactly when their
  scores are equal as numbers, however each score is represented. The ranker compares the
  raw values with \<open>===\<close>: the number 9.5 and the string "9.5" coerce to the same number
  and the sort by score leaves them adjacent, yet they get the ranks 1 and 2.
\<close>

theorem rankedStudents_tie_counterexample:
  "Number (JNum (Fin (19 / 2))) = Number (JStr ''9.5'') \<and>
   sorted_students SortSgpa Desc
     [\<lparr>usn = ''X1'', name = ''Alice'', sgpa = JNum (Fin (19 / 2))\<rparr>,
      \<lparr>usn = ''X2'', name = ''Bob'', sgpa = JStr ''9.5''\<rparr>] =
     [\<lparr>usn = ''X1'', name = ''Alice'', sgpa = JNum (Fin (19 / 2))\<rparr>,
      \<lparr>usn = ''X2'', name = ''Bob'', sgpa = JStr ''9.5''\<rparr>] \<and>
   map rank (rankedStudents
     [\<lparr>usn = ''X1'', name = ''Alice'', sgpa = JNum (Fin (19 / 2))\<rparr>,
      \<lparr>usn = ''X2'', name = ''Bob'', sgpa = JStr ''9.5''\<rparr>]) = [1, 2]"
proof -
  have n: "StringToNumber ''9.5'' = Fin (19 / 2)" by code_simp
  show ?thesis
    by (simp add: n sorted_students_def compare_def sort_val_def js_gt_def
        map_rank_rankedStudents rank_of_def upt_rec)
qed

text \<open>
  C4, amended: for every index \<open>i > 0\<close> of the list handed to the ranker, the record at
  \<open>i\<close> shares an earlier rank (its rank is at most \<open>i\<close>, not the positional \<open>i + 1\<close>)
  exactly when its raw score is strictly equal to the raw score at \<open>i - 1\<close>; strict
  equality holds exactly when the two values are the same value of the same type, and
  not \<open>NaN\<close>; for two numeric scores this is exact equality of the numbers.
\<close>

theorem rankedStudents_tie:
  "(0 < i \<and> i < length srt \<longrightarrow>
      (rank (rankedStudents srt ! i) \<le> int i \<longleftrightarrow>
         strict_eq (sgpa (srt ! (i - 1))) (sgpa (srt ! i)))) \<and>
   (strict_eq u v \<longleftrightarrow> u = v \<and> u \<noteq> JNum NaN) \<and>
   (is_number u \<and> is_number v \<longrightarrow> (strict_eq u v \<longleftrightarrow> Number u = Number v))"
proof (intro conjI impI)
  assume a: "0 < i \<and> i < length srt"
  then have i: "i < length srt" and pos: "0 < i" by simp_all
  show "rank (rankedStudents srt ! i) \<le> int i \<longleftrightarrow>
         strict_eq (sgpa (srt ! (i - 1))) (sgpa (srt ! i))"
  proof (cases "strict_eq (sgpa (srt ! (i - 1))) (sgpa (srt ! i))")
    case True
    then obtain j where "j < i" "rank_of srt (srt ! i) i = int j + 1"
      using rank_of_tie [OF i pos] by blast
    with True show ?thesis by (simp add: rank_rankedStudents [OF i])
  next
    case False
    then have "rank_of srt (srt ! i) i = int i + 1" using rank_of_no_tie [of i srt] by blast
    with False show ?thesis by (simp add: rank_rankedStudents [OF i])
  qed
next
  show "strict_eq u v \<longleftrightarrow> u = v \<and> u \<noteq> JNum NaN" by (rule strict_eq_iff)
next
  assume "is_number u \<and> is_number v"
  then show "strict_eq u v \<longleftrightarrow> Number u = Number v"
    using is_number_eq_iff [of u v] is_number_Number [of u] by (auto simp: strict_eq_iff)
qed

theorem rankedStudents_tie_witness:
  "rank (rankedStudents
     [\<lparr>usn = ''X1'', name = ''Alice'', sgpa = JNum (Fin (19 / 2))\<rparr>,
      \<lparr>usn = ''X2'', name = ''Bob'', sgpa = JNum (Fin (19 / 2))\<rparr>] ! 1) \<le> 1 \<and>
   strict_eq (JNum (Fin (19 / 2))) (JNum (Fin (19 / 2)))"
proof -
  let ?srt = "[\<lparr>usn = ''X1'', name = ''Alice'', sgpa = JNum (Fin (19 / 2))\<rparr>,
      \<lparr>usn = ''X2'', name = ''Bob'', sgpa = JNum (Fin (19 / 2))\<rparr>]"
  note th = rankedStudents_tie [of 1 ?srt "JNum (Fin (19 / 2))" "JNum (Fin (19 / 2))"]
  have h1: "0 < (1::nat) \<and> 1 < length ?srt" by simp
  have h2: "is_number (JNum (Fin (19 / 2))) \<and> is_number (JNum (Fin (19 / 2)))" by simp
  have t: "strict_eq (sgpa (?srt ! (1 - 1))) (sgpa (?srt ! 1))" by simp
  from th h1 t have c1: "rank (rankedStudents ?srt ! 1) \<le> int 1" by blast
  from th h2 have c2: "strict_eq (JNum (Fin (19 / 2))) (JNum (Fin (19 / 2)))" by simp
  from c1 c2 show ?thesis by simp
qed

subsection \<open>Ranks along a view sorted by score\<close>

lemma sorted_score_sandwich:
  assumes srt: "sorted_wrt (\<lambda>x y. compare SortSgpa so x y \<le> 0) ys"
    and num: "\<forall>s\<in>set ys. is_number (sgpa s)"
    and idx: "i \<le> m" "m \<le> j" "j < length ys"
    and eq: "sgpa (ys ! i) = sgpa (ys ! j)"
  shows "sgpa (ys ! m) = sgpa (ys ! j)"
proof (cases "i = m \<or> m = j")
  case True
  then show ?thesis using eq by auto
next
  case False
  then have lt: "i < m" "m < j" using idx by simp_all
  have c1: "compare SortSgpa so (ys ! i) (ys ! m) \<le> 0"
    using sorted_wrt_nth_less [OF srt lt(1)] lt(2) idx(3) by simp
  have c2: "compare SortSgpa so (ys ! m) (ys ! j) \<le> 0"
    using sorted_wrt_nth_less [OF srt lt(2) idx(3)] by simp
  have nm: "is_number (sgpa (ys ! m))" and nj: "is_number (sgpa (ys ! j))"
    using num lt idx(3) by simp_all
  let ?M = "Number (sgpa (ys ! m))" and ?J = "Number (sgpa (ys ! j))"
  have "\<not> num_lt ?M ?J \<and> \<not> num_lt ?J ?M"
    using c1 c2 unfolding compare_sgpa_le_iff eq by (cases "so = Asc") simp_all
  moreover have "?M \<noteq> NaN" "?J \<noteq> NaN"
    using is_number_Number [OF nm] is_number_Number [OF nj] by simp_all
  ultimately have "?M = ?J" using num_lt_antisym [of ?M ?J] by blast
  then show ?thesis using is_number_eq_iff [OF nm nj] by simp
qed

lemma rank_of_mono_sorted:
  assumes srt: "sorted_wrt (\<lambda>x y. compare SortSgpa so x y \<le> 0) ys"
    and num: "\<forall>s\<in>set ys. is_number (sgpa s)"
    and i: "i + 1 < length ys"
  shows "rank_of ys (ys ! i) i \<le> rank_of ys (ys ! (i + 1)) (i + 1)"
proof -
  have il: "i < length ys" using i by simp
  have se: "strict_eq (sgpa (ys ! a)) (sgpa (ys ! b)) \<longleftrightarrow> sgpa (ys ! a) = sgpa (ys ! b)"
    if "a < length ys" for a b
  proof -
    have "is_number (sgpa (ys ! a))" using num that by simp
    then have "sgpa (ys ! a) \<noteq> JNum NaN" by auto
    then show ?thesis by (simp add: strict_eq_iff)
  qed
  show ?thesis
  proof (cases "strict_eq (sgpa (ys ! i)) (sgpa (ys ! (i + 1)))")
    case False
    then have "rank_of ys (ys ! (i + 1)) (i + 1) = int (i + 1) + 1"
      using rank_of_no_tie [of "i + 1" ys] by simp
    with rank_of_le [OF il] show ?thesis by simp
  next
    case True
    then have e1: "sgpa (ys ! i) = sgpa (ys ! (i + 1))" using se [OF il] by simp
    from True obtain j where j: "j < i + 1"
        "rank_of ys (ys ! (i + 1)) (i + 1) = int j + 1"
        "strict_eq (sgpa (ys ! j)) (sgpa (ys ! (i + 1)))"
        "\<forall>m<j. \<not> strict_eq (sgpa (ys ! m)) (sgpa (ys ! (i + 1)))"
      using rank_of_tie [OF i, simplified] by auto
    have jl: "j < length ys" using j(1) i by simp
    have ej: "sgpa (ys ! j) = sgpa (ys ! i)" using j(3) se [OF jl] e1 by simp
    show ?thesis
    proof (cases "0 < i \<and> strict_eq (sgpa (ys ! (i - 1))) (sgpa (ys ! i))")
      case True
      then obtain j' where j': "j' < i" "rank_of ys (ys ! i) i = int j' + 1"
          "strict_eq (sgpa (ys ! j')) (sgpa (ys ! i))"
          "\<forall>m<j'. \<not> strict_eq (sgpa (ys ! m)) (sgpa (ys ! i))"
        using rank_of_tie [OF il] by blast
      have "\<not> j < j'"
      proof
        assume "j < j'"
        then have "\<not> strict_eq (sgpa (ys ! j)) (sgpa (ys ! i))" using j'(4) by blast
        then show False using ej se [OF jl] by simp
      qed
      then show ?thesis using j(2) j'(2) by simp
    next
      case False
      then have r: "rank_of ys (ys ! i) i = int i + 1" by (rule rank_of_no_tie)
      have "\<not> j < i"
      proof
        assume ji: "j < i"
        then have pos: "0 < i" by simp
        have "sgpa (ys ! (i - 1)) = sgpa (ys ! i)"
          by (rule sorted_score_sandwich [OF srt num _ _ il ej]) (use ji in simp_all)
        then have "strict_eq (sgpa (ys ! (i - 1))) (sgpa (ys ! i))"
          using se [of "i - 1" i] il by simp
        with pos False show False by blast
      qed
      then show ?thesis using r j(2) by simp
    qed
  qed
qed

text \<open>
  C3, as the specification words it: for every sort key and direction the ranks along the
  view never decrease. With the table sorted by name, the scores 9, 8, 9, 9 get the ranks
  1, 2, 3, 1: the last record is tied with its neighbour and takes the rank of the first
  record with that score.
\<close>

theorem rankedStudents_order_counterexample:
  "map rank (rankedStudents (sorted_students SortName Asc (filtered
     [\<lparr>usn = ''X1'', name = ''Asha'', sgpa = JNum (Fin 9)\<rparr>,
      \<lparr>usn = ''X2'', name = ''Bina'', sgpa = JNum (Fin 8)\<rparr>,
      \<lparr>usn = ''X3'', name = ''Cara'', sgpa = JNum (Fin 9)\<rparr>,
      \<lparr>usn = ''X4'', name = ''Dev'', sgpa = JNum (Fin 9)\<rparr>] ''''))) = [1, 2, 3, 1]"
proof -
  have lc: "toLowerCase ''Asha'' = ''asha''" "toLowerCase ''Bina'' = ''bina''"
      "toLowerCase ''Cara'' = ''cara''" "toLowerCase ''Dev'' = ''dev''"
    by code_simp+
  have lt: "of_char CHR ''a'' < (of_char CHR ''b'' :: nat)"
      "of_char CHR ''b'' < (of_char CHR ''c'' :: nat)"
      "of_char CHR ''c'' < (of_char CHR ''d'' :: nat)"
      "of_char CHR ''a'' < (of_char CHR ''c'' :: nat)"
      "of_char CHR ''a'' < (of_char CHR ''d'' :: nat)"
      "of_char CHR ''b'' < (of_char CHR ''d'' :: nat)"
    by simp_all
  let ?R = "[\<lparr>usn = ''X1'', name = ''Asha'', sgpa = JNum (Fin 9)\<rparr>,
      \<lparr>usn = ''X2'', name = ''Bina'', sgpa = JNum (Fin 8)\<rparr>,
      \<lparr>usn = ''X3'', name = ''Cara'', sgpa = JNum (Fin 9)\<rparr>,
      \<lparr>usn = ''X4'', name = ''Dev'', sgpa = JNum (Fin 9)\<rparr>]"
  have f: "filtered ?R '''' = ?R" using filtered_match [of ?R "''''"]
    by (simp add: filtered_def toLowerCase_def)
  have s: "sorted_students SortName Asc ?R = ?R"
    by (simp add: sorted_students_def compare_def sort_val_def js_gt_def lc)
  show ?thesis
    unfolding f s
    by (simp add: map_rank_rankedStudents rank_of_def findIndex_def upt_rec numeral_eq_Suc)
qed

text \<open>
  C3, amended: the first record of a non-empty view has rank 1 whatever the sort key and
  direction; and when the view is sorted by score, in either direction, and every score
  is a number, the rank never decreases from one position to the next.
\<close>

theorem rankedStudents_monotone:
  "(srt \<noteq> [] \<longrightarrow> rank (rankedStudents srt ! 0) = 1) \<and>
   ((\<forall>s\<in>set R. is_number (sgpa s)) \<longrightarrow>
      (\<forall>i. i + 1 < length R \<longrightarrow>
         rank (rankedStudents (sorted_students SortSgpa so R) ! i) \<le>
         rank (rankedStudents (sorted_students SortSgpa so R) ! (i + 1))))"
proof (intro conjI impI allI)
  assume "srt \<noteq> []"
  then have "0 < length srt" by simp
  then show "rank (rankedStudents srt ! 0) = 1"
    by (simp add: rank_rankedStudents rank_of_def)
next
  fix i
  assume num: "\<forall>s\<in>set R. is_number (sgpa s)" and i: "i + 1 < length R"
  let ?ys = "sorted_students SortSgpa so R"
  have len: "length ?ys = length R"
    by (simp add: sorted_students_def length_array_sort)
  have set: "set ?ys = set R"
    by (simp add: sorted_students_def set_array_sort)
  have "\<forall>s\<in>set R. Number (sgpa s) \<noteq> NaN"
    using num is_number_Number by blast
  then have srt: "sorted_wrt (\<lambda>x y. compare SortSgpa so x y \<le> 0) ?ys"
    by (intro sorted_students_sorted) simp
  have num': "\<forall>s\<in>set ?ys. is_number (sgpa s)" using num set by simp
  have i': "i + 1 < length ?ys" using i len by simp
  have "rank_of ?ys (?ys ! i) i \<le> rank_of ?ys (?ys ! (i + 1)) (i + 1)"
    by (rule rank_of_mono_sorted [OF srt num' i'])
  then show "rank (rankedStudents ?ys ! i) \<le> rank (rankedStudents ?ys ! (i + 1))"
    using i' by (simp add: rank_rankedStudents)
qed

theorem rankedStudents_monotone_witness:
  "rank (rankedStudents [\<lparr>usn = ''X1'', name = ''Alice'', sgpa = JNum (Fin (19 / 2))\<rparr>] ! 0) = 1 \<and>
   rank (rankedStudents (sorted_students SortSgpa Desc
        [\<lparr>usn = ''X3'', name = ''Cara'', sgpa = JNum (Fin (36 / 5))\<rparr>,
         \<lparr>usn = ''X1'', name = ''Alice'', sgpa = JNum (Fin (19 / 2))\<rparr>,
         \<lparr>usn = ''X2'', name = ''Bob'', sgpa = JNum (Fin (19 / 2))\<rparr>]) ! 1) \<le>
   rank (rankedStudents (sorted_students SortSgpa Desc
        [\<lparr>usn = ''X3'', name = ''Cara'', sgpa = JNum (Fin (36 / 5))\<rparr>,
         \<lparr>usn = ''X1'', name = ''Alice'', sgpa = JNum (Fin (19 / 2))\<rparr>,
         \<lparr>usn = ''X2'', name = ''Bob'', sgpa = JNum (Fin (19 / 2))\<rparr>]) ! (1 + 1))"
proof -
  let ?srt = "[\<lparr>usn = ''X1'', name = ''Alice'', sgpa = JNum (Fin (19 / 2))\<rparr>]"
  let ?R = "[\<lparr>usn = ''X3'', name = ''Cara'', sgpa = JNum (Fin (36 / 5))\<rparr>,
         \<lparr>usn = ''X1'', name = ''Alice'', sgpa = JNum (Fin (19 / 2))\<rparr>,
         \<lparr>usn = ''X2'', name = ''Bob'', sgpa = JNum (Fin (19 / 2))\<rparr>]"
  note th = rankedStudents_monotone [of ?srt ?R Desc]
  have h1: "?srt \<noteq> []" by simp
  have h2: "\<forall>s\<in>set ?R. is_number (sgpa s)" by simp
  have h3: "1 + 1 < length ?R" by simp
  from th h1 have c1: "rank (rankedStudents ?srt ! 0) = 1" by blast
  from th h2 have "\<forall>i. i + 1 < length ?R \<longrightarrow>
         rank (rankedStudents (sorted_students SortSgpa Desc ?R) ! i) \<le>
         rank (rankedStudents (sorted_students SortSgpa Desc ?R) ! (i + 1))" by blast
  with h3 have c2: "rank (rankedStudents (sorted_students SortSgpa Desc ?R) ! 1) \<le>
         rank (rankedStudents (sorted_students SortSgpa Desc ?R) ! (1 + 1))" by blast
  from c1 c2 show ?thesis by (intro conjI)
qed

end
